theory Spec2Isabelle
  imports Main "HOL-Library.Word"
begin

unbundle bit_operations_syntax

section \<open>Machine integers, faults and spinning\<close>

text \<open>
  The C type \<open>unsigned int\<close> is a 32-bit word: \<open>+\<close> and \<open>-\<close> wrap around,
  \<open>NOT\<close> is \<open>~\<close>, \<open>push_bit\<close> is \<open><<\<close> and \<open>drop_bit\<close> is \<open>>>\<close>.
\<close>

type_synonym u32 = "32 word"

text \<open>
  What a call can end in besides returning: an access outside a caller-allocated array,
  a dereference of \<open>NULL\<close>, or a thread that is still inside a spin loop when the
  observed schedule of the other threads ends (the call has not returned).
\<close>

datatype error = OutOfBounds | NullPointer | StillSpinning

definition ebind :: "error + 'a \<Rightarrow> ('a \<Rightarrow> error + 'b) \<Rightarrow> error + 'b" where
  "ebind m f = (case m of Inl e \<Rightarrow> Inl e | Inr x \<Rightarrow> f x)"

text \<open>
  A spin loop \<open>while (cond) ck_pr_stall();\<close> seen from the spinning thread: the shared
  memory is loaded, and while the condition holds the thread stalls, during which the
  other threads run. Their effect on the shared memory is the environment: one function
  per stall, consumed in order. The loop returns the memory it last loaded together
  with the part of the environment that is left.
\<close>

type_synonym 'm env = "('m \<Rightarrow> 'm) list"

fun spin :: "('m \<Rightarrow> error + bool) \<Rightarrow> 'm env \<Rightarrow> 'm \<Rightarrow> error + ('m \<times> 'm env)" where
  "spin cond [] m =
     (case cond m of
        Inl e \<Rightarrow> Inl e
      | Inr waiting \<Rightarrow> if waiting then Inl StillSpinning else Inr (m, []))"
| "spin cond (other # rest) m =
     (case cond m of
        Inl e \<Rightarrow> Inl e
      | Inr waiting \<Rightarrow> if waiting then spin cond rest (other m) else Inr (m, other # rest))"

text \<open>The memory after the first \<open>n\<close> stalls.\<close>

definition after_stalls :: "nat \<Rightarrow> 'm env \<Rightarrow> 'm \<Rightarrow> 'm" where
  "after_stalls n environment m = fold (\<lambda>other. other) (take n environment) m"

section \<open>Integer helpers\<close>

text \<open>
  \<^verbatim>\<open>
  static const unsigned int b[] = {0xAAAAAAAA, 0xCCCCCCCC, 0xF0F0F0F0, 0xFF00FF00, 0xFFFF0000};
  register unsigned int r = (v & b[0]) != 0;
  for (i = 4; i > 0; i--) r |= ((v & b[i]) != 0) << i;
  \<close>
\<close>

definition log_b :: "u32 list" where
  "log_b = [0xAAAAAAAA, 0xCCCCCCCC, 0xF0F0F0F0, 0xFF00FF00, 0xFFFF0000]"

fun ck_barrier_internal_log_loop :: "u32 \<Rightarrow> nat \<Rightarrow> u32 \<Rightarrow> u32" where
  "ck_barrier_internal_log_loop v 0 r = r"
| "ck_barrier_internal_log_loop v (Suc n) r =
     ck_barrier_internal_log_loop v n
       (r OR push_bit (Suc n) (of_bool (v AND log_b ! Suc n \<noteq> 0)))"

definition ck_barrier_internal_log :: "u32 \<Rightarrow> u32" where
  "ck_barrier_internal_log v =
     ck_barrier_internal_log_loop v 4 (of_bool (v AND log_b ! 0 \<noteq> 0))"

definition ck_barrier_internal_power_2 :: "u32 \<Rightarrow> u32" where
  "ck_barrier_internal_power_2 v0 =
     (let v = v0 - 1;
          v = v OR drop_bit 1 v;
          v = v OR drop_bit 2 v;
          v = v OR drop_bit 4 v;
          v = v OR drop_bit 8 v;
          v = v OR drop_bit 16 v
      in v + 1)"

section \<open>Centralized barrier\<close>

text \<open>
  Modelled from the spec: the barrier and state types of \<open>ck_barrier.h\<close>, the shared
  arrival count and sense, and the thread's expected sense. The field \<open>value\<close> of the
  source is \<open>cb_value\<close> here. In \<open>ck_barrier_centralized\<close> the fetch-and-add returns the
  prior count, and the other threads act only while this thread stalls.
\<close>

record ck_barrier_centralized =
  cb_value :: u32
  cb_sense :: u32

record ck_barrier_centralized_state =
  cs_sense :: u32

definition ck_barrier_centralized ::
  "ck_barrier_centralized env \<Rightarrow> ck_barrier_centralized \<Rightarrow> ck_barrier_centralized_state \<Rightarrow> u32
   \<Rightarrow> error + (ck_barrier_centralized \<times> ck_barrier_centralized_state \<times> ck_barrier_centralized env)" where
  "ck_barrier_centralized environment barrier state n_threads =
     (let sense = NOT (cs_sense state);
          state = state\<lparr>cs_sense := sense\<rparr>;
          val = cb_value barrier;
          barrier = barrier\<lparr>cb_value := val + 1\<rparr>
      in if val = n_threads - 1 then
           (let barrier = barrier\<lparr>cb_value := 0\<rparr>;
                barrier = barrier\<lparr>cb_sense := sense\<rparr>
            in Inr (barrier, state, environment))
         else
           ebind (spin (\<lambda>b. Inr (sense \<noteq> cb_sense b)) environment barrier)
             (\<lambda>(barrier, environment). Inr (barrier, state, environment)))"

lemma ebind_simps:
  "ebind (Inl e) f = Inl e"
  "ebind (Inr x) f = f x"
  by (simp_all add: ebind_def)

lemma ebind_eq_Inr:
  "ebind m f = Inr y \<longleftrightarrow> (\<exists>x. m = Inr x \<and> f x = Inr y)"
  by (cases m) (simp_all add: ebind_def)

text \<open>
  A spin loop on a condition that cannot fault returns exactly at the first stall count
  at which the condition is false, with the memory the other threads left there.
\<close>

lemma spin_returns_iff:
  "spin (\<lambda>m. Inr (waiting m)) environment m = Inr (m', rest) \<longleftrightarrow>
     (\<exists>n \<le> length environment.
        m' = after_stalls n environment m \<and> rest = drop n environment \<and>
        \<not> waiting m' \<and> (\<forall>j < n. waiting (after_stalls j environment m)))"
proof (induction environment arbitrary: m)
  case Nil
  then show ?case by (auto simp: after_stalls_def)
next
  case (Cons other others)
  show ?case
  proof (cases "waiting m")
    case False
    have zero: "after_stalls 0 (other # others) m = m"
      by (simp add: after_stalls_def)
    have only_zero: "n = 0" if "\<forall>j<n. waiting (after_stalls j (other # others) m)" for n
    proof (rule ccontr)
      assume "n \<noteq> 0"
      with that have "waiting (after_stalls 0 (other # others) m)" by blast
      with False show False by (simp add: zero)
    qed
    show ?thesis
    proof
      assume "spin (\<lambda>m. Inr (waiting m)) (other # others) m = Inr (m', rest)"
      with False have "m' = m" "rest = other # others" by simp_all
      with False show "\<exists>n\<le>length (other # others).
        m' = after_stalls n (other # others) m \<and> rest = drop n (other # others) \<and>
        \<not> waiting m' \<and> (\<forall>j<n. waiting (after_stalls j (other # others) m))"
        by (intro exI [of _ 0]) (simp add: zero)
    next
      assume "\<exists>n\<le>length (other # others).
        m' = after_stalls n (other # others) m \<and> rest = drop n (other # others) \<and>
        \<not> waiting m' \<and> (\<forall>j<n. waiting (after_stalls j (other # others) m))"
      then obtain n where n: "m' = after_stalls n (other # others) m"
        "rest = drop n (other # others)" "\<forall>j<n. waiting (after_stalls j (other # others) m)"
        by blast
      from only_zero [OF n(3)] n(1,2) have "m' = m" "rest = other # others"
        by (simp_all add: zero)
      with False show "spin (\<lambda>m. Inr (waiting m)) (other # others) m = Inr (m', rest)" by simp
    qed
  next
    case True
    have step: "\<And>n. after_stalls (Suc n) (other # others) m = after_stalls n others (other m)"
      by (simp add: after_stalls_def)
    have zero: "after_stalls 0 (other # others) m = m"
      by (simp add: after_stalls_def)
    show ?thesis
    proof
      assume "spin (\<lambda>m. Inr (waiting m)) (other # others) m = Inr (m', rest)"
      with True have "spin (\<lambda>m. Inr (waiting m)) others (other m) = Inr (m', rest)" by simp
      then obtain n where n: "n \<le> length others" "m' = after_stalls n others (other m)"
        "rest = drop n others" "\<not> waiting m'" "\<forall>j<n. waiting (after_stalls j others (other m))"
        using Cons.IH by blast
      have "\<forall>j<Suc n. waiting (after_stalls j (other # others) m)"
      proof (intro allI impI)
        fix j assume "j < Suc n"
        then show "waiting (after_stalls j (other # others) m)"
          using n(5) True by (cases j) (simp_all add: step zero)
      qed
      with n show "\<exists>n\<le>length (other # others).
        m' = after_stalls n (other # others) m \<and> rest = drop n (other # others) \<and>
        \<not> waiting m' \<and> (\<forall>j<n. waiting (after_stalls j (other # others) m))"
        by (intro exI [of _ "Suc n"]) (simp add: step)
    next
      assume "\<exists>n\<le>length (other # others).
        m' = after_stalls n (other # others) m \<and> rest = drop n (other # others) \<and>
        \<not> waiting m' \<and> (\<forall>j<n. waiting (after_stalls j (other # others) m))"
      then obtain n where n: "n \<le> length (other # others)"
        "m' = after_stalls n (other # others) m" "rest = drop n (other # others)"
        "\<not> waiting m'" "\<forall>j<n. waiting (after_stalls j (other # others) m)"
        by blast
      have "n \<noteq> 0"
      proof
        assume "n = 0"
        with n(2) have "m' = m" by (simp add: zero)
        with n(4) True show False by simp
      qed
      then obtain k where k: "n = Suc k" by (cases n) auto
      have "\<forall>j<k. waiting (after_stalls j others (other m))"
      proof (intro allI impI)
        fix j assume "j < k"
        then have "waiting (after_stalls (Suc j) (other # others) m)" using n(5) k by simp
        then show "waiting (after_stalls j others (other m))" by (simp add: step)
      qed
      with n k have "spin (\<lambda>m. Inr (waiting m)) others (other m) = Inr (m', rest)"
        using Cons.IH [of "other m"] by (auto simp: step)
      with True show "spin (\<lambda>m. Inr (waiting m)) (other # others) m = Inr (m', rest)" by simp
    qed
  qed
qed


text \<open>
  Claim C1. For every \<open>n_threads \<ge> 1\<close>, \<open>ck_barrier_centralized\<close> inverts the caller's
  expected sense into \<open>s\<close> and stores it in the state, then fetch-and-adds 1 to the
  shared count. If the prior count is \<open>n_threads - 1\<close> the call returns at once with
  count 0 and shared sense \<open>s\<close>. Otherwise the count stays incremented by 1 as far as
  this thread is concerned, and the call returns exactly at the first load that finds
  the shared sense equal to \<open>s\<close>: after \<open>n\<close> stalls, with the memory the other threads
  made of the incremented barrier, every earlier load having seen another sense.
\<close>

theorem centralized_wait:
  assumes "1 \<le> n_threads"
  shows "(cb_value barrier = n_threads - 1 \<longrightarrow>
            ck_barrier_centralized environment barrier state n_threads =
              Inr (barrier\<lparr>cb_value := 0, cb_sense := NOT (cs_sense state)\<rparr>,
                   state\<lparr>cs_sense := NOT (cs_sense state)\<rparr>, environment)) \<and>
         (cb_value barrier \<noteq> n_threads - 1 \<longrightarrow>
            (ck_barrier_centralized environment barrier state n_threads = Inr (barrier', state', rest)
             \<longleftrightarrow>
             state' = state\<lparr>cs_sense := NOT (cs_sense state)\<rparr> \<and>
             (\<exists>n \<le> length environment.
                barrier' = after_stalls n environment (barrier\<lparr>cb_value := cb_value barrier + 1\<rparr>) \<and>
                rest = drop n environment \<and>
                cb_sense barrier' = NOT (cs_sense state) \<and>
                (\<forall>j < n. cb_sense (after_stalls j environment
                                    (barrier\<lparr>cb_value := cb_value barrier + 1\<rparr>))
                           \<noteq> NOT (cs_sense state)))))"
proof (intro conjI impI)
  assume "cb_value barrier = n_threads - 1"
  then show "ck_barrier_centralized environment barrier state n_threads =
      Inr (barrier\<lparr>cb_value := 0, cb_sense := NOT (cs_sense state)\<rparr>,
           state\<lparr>cs_sense := NOT (cs_sense state)\<rparr>, environment)"
    by (simp add: ck_barrier_centralized_def Let_def)
next
  let ?s = "NOT (cs_sense state)"
  let ?b = "barrier\<lparr>cb_value := cb_value barrier + 1\<rparr>"
  assume "cb_value barrier \<noteq> n_threads - 1"
  then have unfold: "ck_barrier_centralized environment barrier state n_threads =
      ebind (spin (\<lambda>b. Inr (?s \<noteq> cb_sense b)) environment ?b)
        (\<lambda>(b, e). Inr (b, state\<lparr>cs_sense := ?s\<rparr>, e))"
    by (simp add: ck_barrier_centralized_def Let_def)
  have "ck_barrier_centralized environment barrier state n_threads = Inr (barrier', state', rest)
      \<longleftrightarrow> state' = state\<lparr>cs_sense := ?s\<rparr> \<and>
          spin (\<lambda>b. Inr (?s \<noteq> cb_sense b)) environment ?b = Inr (barrier', rest)"
    unfolding unfold ebind_eq_Inr by auto
  also have "\<dots> \<longleftrightarrow> state' = state\<lparr>cs_sense := ?s\<rparr> \<and>
      (\<exists>n \<le> length environment.
         barrier' = after_stalls n environment ?b \<and> rest = drop n environment \<and>
         cb_sense barrier' = ?s \<and>
         (\<forall>j < n. cb_sense (after_stalls j environment ?b) \<noteq> ?s))"
    unfolding spin_returns_iff by (intro conj_cong refl) metis
  finally show "ck_barrier_centralized environment barrier state n_threads = Inr (barrier', state', rest)
      \<longleftrightarrow> state' = state\<lparr>cs_sense := ?s\<rparr> \<and>
      (\<exists>n \<le> length environment.
         barrier' = after_stalls n environment ?b \<and> rest = drop n environment \<and>
         cb_sense barrier' = ?s \<and>
         (\<forall>j < n. cb_sense (after_stalls j environment ?b) \<noteq> ?s))" .
qed

text \<open>
  One thread alone with \<open>n_threads = 1\<close> is the last arrival. With \<open>n_threads = 2\<close> the
  first thread spins; when the other thread releases the barrier during the first
  stall, the call returns after that one stall.
\<close>

theorem centralized_wait_witness:
  "(1::u32) \<le> 1 \<and> (1::u32) \<le> 2 \<and>
   ck_barrier_centralized [] \<lparr>cb_value = 0, cb_sense = 0\<rparr> \<lparr>cs_sense = 0\<rparr> 1 =
     Inr (\<lparr>cb_value = 0, cb_sense = - 1\<rparr>, \<lparr>cs_sense = - 1\<rparr>, []) \<and>
   ck_barrier_centralized [\<lambda>b. b\<lparr>cb_value := 0, cb_sense := - 1\<rparr>]
       \<lparr>cb_value = 0, cb_sense = 0\<rparr> \<lparr>cs_sense = 0\<rparr> 2 =
     Inr (\<lparr>cb_value = 0, cb_sense = - 1\<rparr>, \<lparr>cs_sense = - 1\<rparr>, [])"
proof -
  have one: "(1::u32) \<le> 1" and two: "(1::u32) \<le> 2" by simp_all
  have last: "ck_barrier_centralized [] \<lparr>cb_value = 0, cb_sense = 0\<rparr> \<lparr>cs_sense = 0\<rparr> 1 =
      Inr (\<lparr>cb_value = 0, cb_sense = - 1\<rparr>, \<lparr>cs_sense = - 1\<rparr>, [])"
    using centralized_wait [OF one, of "\<lparr>cb_value = 0, cb_sense = 0\<rparr>" "[]" "\<lparr>cs_sense = 0\<rparr>"]
    by simp
  have "\<exists>n \<le> length [\<lambda>b. b\<lparr>cb_value := 0, cb_sense := - 1 :: u32\<rparr>].
      \<lparr>cb_value = 0, cb_sense = - 1\<rparr> =
        after_stalls n [\<lambda>b. b\<lparr>cb_value := 0, cb_sense := - 1\<rparr>] \<lparr>cb_value = 1, cb_sense = 0\<rparr> \<and>
      [] = drop n [\<lambda>b. b\<lparr>cb_value := 0, cb_sense := - 1 :: u32\<rparr>] \<and>
      (\<forall>j < n. cb_sense (after_stalls j [\<lambda>b. b\<lparr>cb_value := 0, cb_sense := - 1\<rparr>]
                          \<lparr>cb_value = 1, cb_sense = 0\<rparr>) \<noteq> - 1)"
    by (intro exI [of _ 1]) (simp add: after_stalls_def)
  then have waits: "ck_barrier_centralized [\<lambda>b. b\<lparr>cb_value := 0, cb_sense := - 1\<rparr>]
       \<lparr>cb_value = 0, cb_sense = 0\<rparr> \<lparr>cs_sense = 0\<rparr> 2 =
     Inr (\<lparr>cb_value = 0, cb_sense = - 1\<rparr>, \<lparr>cs_sense = - 1\<rparr>, [])"
    using centralized_wait [OF two, of "\<lparr>cb_value = 0, cb_sense = 0\<rparr>"
        "[\<lambda>b. b\<lparr>cb_value := 0, cb_sense := - 1\<rparr>]" "\<lparr>cs_sense = 0\<rparr>"
        "\<lparr>cb_value = 0, cb_sense = - 1\<rparr>" "\<lparr>cs_sense = - 1\<rparr>" "[]"]
    by simp
  from one two last waits show ?thesis by simp
qed

section \<open>MCS tree barrier\<close>

text \<open>A loop counter below its bound does not wrap when it is incremented.\<close>

lemma word_succ: "i < (n::u32) \<Longrightarrow> unat (i + 1) = Suc (unat i)"
  by unat_arith

text \<open>
  Modelled from the spec: the node type of \<open>ck_barrier.h\<close>, with the fields the source
  uses. The fixed-size arrays \<open>children[2]\<close>, \<open>childnotready[4]\<close> and \<open>havechild[4]\<close>
  are lists of that length (\<open>mcs_node_ok\<close>). A reference to a word of the node array is
  the address of \<open>barrier[i].dummy\<close>, of \<open>barrier[i].childnotready[j]\<close> or of
  \<open>barrier[i].parentsense\<close>.
\<close>

datatype mcs_ptr = Dummy nat | ChildNotReady nat nat | ParentSense nat

record ck_barrier_mcs =
  children :: "mcs_ptr list"
  childnotready :: "u32 list"
  dummy :: u32
  havechild :: "u32 list"
  parent :: mcs_ptr
  parentsense :: u32

definition mcs_node_ok :: "ck_barrier_mcs \<Rightarrow> bool" where
  "mcs_node_ok node \<longleftrightarrow>
     length (children node) = 2 \<and> length (childnotready node) = 4 \<and> length (havechild node) = 4"

text \<open>
  The inner loop \<open>for (j = 0; j < 4; ++j)\<close> of \<open>ck_barrier_mcs_init\<close>;
  \<open>~0\<close> converted to \<open>unsigned int\<close> is \<open>NOT 0\<close>.
\<close>

function mcs_init_slots :: "u32 \<Rightarrow> u32 \<Rightarrow> u32 \<Rightarrow> ck_barrier_mcs \<Rightarrow> ck_barrier_mcs" where
  "mcs_init_slots nthr i j node =
     (if j < 4 then
        (let node = node\<lparr>havechild := (havechild node)
                      [unat j := if push_bit 2 i + j < nthr - 1 then NOT 0 else 0]\<rparr>;
             node = node\<lparr>childnotready := (childnotready node)[unat j := havechild node ! unat j]\<rparr>
         in mcs_init_slots nthr i (j + 1) node)
      else node)"
  by pat_completeness auto
termination
  by (relation "measure (\<lambda>(nthr, i, j, node). 4 - unat j)")
    (simp_all add: word_less_nat_alt unat_word_ariths)

declare mcs_init_slots.simps [simp del]

text \<open>The body of the outer loop, on node \<open>barrier[i]\<close>.\<close>

definition mcs_init_node :: "u32 \<Rightarrow> u32 \<Rightarrow> ck_barrier_mcs \<Rightarrow> ck_barrier_mcs" where
  "mcs_init_node nthr i node0 =
     (let node = mcs_init_slots nthr i 0 node0;
          node = node\<lparr>parent :=
                   if i = 0 then Dummy (unat i)
                   else ChildNotReady (unat (drop_bit 2 (i - 1))) (unat ((i - 1) AND 3))\<rparr>;
          node = node\<lparr>children := (children node)
                   [0 := if push_bit 1 i + 1 \<ge> nthr then Dummy (unat i)
                         else ParentSense (unat (push_bit 1 i + 1))]\<rparr>;
          node = node\<lparr>children := (children node)
                   [1 := if push_bit 1 i + 2 \<ge> nthr then Dummy (unat i)
                         else ParentSense (unat (push_bit 1 i + 2))]\<rparr>
      in node\<lparr>parentsense := 0\<rparr>)"

text \<open>
  The outer loop \<open>for (i = 0; i < nthr; ++i)\<close>. The node array is allocated by the
  caller: an index outside it is a fault.
\<close>

function mcs_init_loop :: "u32 \<Rightarrow> u32 \<Rightarrow> ck_barrier_mcs list \<Rightarrow> error + ck_barrier_mcs list" where
  "mcs_init_loop nthr i barrier =
     (if i < nthr then
        (if unat i < length barrier
         then mcs_init_loop nthr (i + 1) (barrier[unat i := mcs_init_node nthr i (barrier ! unat i)])
         else Inl OutOfBounds)
      else Inr barrier)"
  by pat_completeness auto
termination
  by (relation "measure (\<lambda>(nthr, i, barrier). unat nthr - unat i)") (auto, unat_arith)

declare mcs_init_loop.simps [simp del]

definition ck_barrier_mcs_init :: "ck_barrier_mcs list \<Rightarrow> u32 \<Rightarrow> error + ck_barrier_mcs list" where
  "ck_barrier_mcs_init barrier nthr = mcs_init_loop nthr 0 barrier"

text \<open>The value the source assigns to \<open>barrier[i].havechild[j]\<close>.\<close>

definition mcs_flag :: "u32 \<Rightarrow> u32 \<Rightarrow> u32 \<Rightarrow> u32" where
  "mcs_flag nthr i j = (if push_bit 2 i + j < nthr - 1 then NOT 0 else 0)"

lemma mcs_init_slots_result:
  assumes "mcs_node_ok node"
  shows "mcs_init_slots nthr i 0 node =
     node\<lparr>havechild := [mcs_flag nthr i 0, mcs_flag nthr i 1, mcs_flag nthr i 2, mcs_flag nthr i 3],
          childnotready := [mcs_flag nthr i 0, mcs_flag nthr i 1, mcs_flag nthr i 2, mcs_flag nthr i 3]\<rparr>"
proof -
  obtain h0 h1 h2 h3 where h: "havechild node = [h0, h1, h2, h3]"
    using assms by (auto simp: mcs_node_ok_def length_Suc_conv numeral_eq_Suc)
  obtain c0 c1 c2 c3 where c: "childnotready node = [c0, c1, c2, c3]"
    using assms by (auto simp: mcs_node_ok_def length_Suc_conv numeral_eq_Suc)
  have four: "mcs_init_slots nthr i 4 n = n" for n
    by (subst mcs_init_slots.simps) simp
  have three: "mcs_init_slots nthr i 3 n = 
        (let node = n\<lparr>havechild := (havechild n)[3 := mcs_flag nthr i 3]\<rparr>
         in node\<lparr>childnotready := (childnotready node)[3 := havechild node ! 3]\<rparr>)" for n
    by (subst mcs_init_slots.simps) (simp add: four mcs_flag_def Let_def)
  have two: "mcs_init_slots nthr i 2 n = 
        mcs_init_slots nthr i 3 (let node = n\<lparr>havechild := (havechild n)[2 := mcs_flag nthr i 2]\<rparr>
         in node\<lparr>childnotready := (childnotready node)[2 := havechild node ! 2]\<rparr>)" for n
    by (subst mcs_init_slots.simps) (simp add: mcs_flag_def Let_def)
  have one: "mcs_init_slots nthr i 1 n = 
        mcs_init_slots nthr i 2 (let node = n\<lparr>havechild := (havechild n)[1 := mcs_flag nthr i 1]\<rparr>
         in node\<lparr>childnotready := (childnotready node)[1 := havechild node ! 1]\<rparr>)" for n
    by (subst mcs_init_slots.simps) (simp add: mcs_flag_def Let_def)
  have zero: "mcs_init_slots nthr i 0 n = 
        mcs_init_slots nthr i 1 (let node = n\<lparr>havechild := (havechild n)[0 := mcs_flag nthr i 0]\<rparr>
         in node\<lparr>childnotready := (childnotready node)[0 := havechild node ! 0]\<rparr>)" for n
    by (subst mcs_init_slots.simps) (simp add: mcs_flag_def Let_def)
  show ?thesis
    by (simp add: zero one two three h c Let_def)
qed

lemma mcs_init_loop_result:
  assumes "unat nthr \<le> length barrier"
  shows "\<exists>b'. mcs_init_loop nthr i barrier = Inr b' \<and> length b' = length barrier \<and>
           (\<forall>x < length barrier. b' ! x =
              (if unat i \<le> x \<and> x < unat nthr then mcs_init_node nthr (of_nat x) (barrier ! x)
               else barrier ! x))"
  using assms
proof (induction nthr i barrier rule: mcs_init_loop.induct)
  case (1 nthr i barrier)
  show ?case
  proof (cases "i < nthr")
    case False
    then have "\<not> (unat i \<le> x \<and> x < unat nthr)" for x
      by (auto simp: word_less_nat_alt)
    with False show ?thesis by (subst mcs_init_loop.simps) auto
  next
    case True
    then have lt: "unat i < unat nthr" by (simp add: word_less_nat_alt)
    with "1.prems" have inb: "unat i < length barrier" by simp
    let ?b = "barrier[unat i := mcs_init_node nthr i (barrier ! unat i)]"
    from "1.IH" [OF True inb] "1.prems"
    obtain b' where b': "mcs_init_loop nthr (i + 1) ?b = Inr b'" "length b' = length barrier"
      "\<forall>x < length barrier. b' ! x =
         (if unat (i + 1) \<le> x \<and> x < unat nthr then mcs_init_node nthr (of_nat x) (?b ! x)
          else ?b ! x)"
      by auto
    have run: "mcs_init_loop nthr i barrier = Inr b'"
      using True inb b'(1) by (subst mcs_init_loop.simps) simp
    have "b' ! x = (if unat i \<le> x \<and> x < unat nthr then mcs_init_node nthr (of_nat x) (barrier ! x)
               else barrier ! x)" if "x < length barrier" for x
    proof (cases "x = unat i")
      case True
      with b'(3) that lt inb show ?thesis by (simp add: word_succ [OF \<open>i < nthr\<close>])
    next
      case False
      with b'(3) that show ?thesis by (auto simp: word_succ [OF \<open>i < nthr\<close>])
    qed
    with run b'(2) show ?thesis by blast
  qed
qed


lemma mcs_init_node_fields:
  assumes "mcs_node_ok node"
  shows "havechild (mcs_init_node nthr i node) =
           [mcs_flag nthr i 0, mcs_flag nthr i 1, mcs_flag nthr i 2, mcs_flag nthr i 3]"
    and "childnotready (mcs_init_node nthr i node) = havechild (mcs_init_node nthr i node)"
    and "parent (mcs_init_node nthr i node) =
           (if i = 0 then Dummy (unat i)
            else ChildNotReady (unat (drop_bit 2 (i - 1))) (unat ((i - 1) AND 3)))"
    and "children (mcs_init_node nthr i node) =
           [if push_bit 1 i + 1 \<ge> nthr then Dummy (unat i) else ParentSense (unat (push_bit 1 i + 1)),
            if push_bit 1 i + 2 \<ge> nthr then Dummy (unat i) else ParentSense (unat (push_bit 1 i + 2))]"
    and "parentsense (mcs_init_node nthr i node) = 0"
    and "dummy (mcs_init_node nthr i node) = dummy node"
proof -
  obtain c0 c1 where c: "children node = [c0, c1]"
    using assms by (auto simp: mcs_node_ok_def length_Suc_conv numeral_eq_Suc)
  note init = mcs_init_node_def Let_def mcs_init_slots_result [OF assms]
  show "havechild (mcs_init_node nthr i node) =
           [mcs_flag nthr i 0, mcs_flag nthr i 1, mcs_flag nthr i 2, mcs_flag nthr i 3]"
    by (simp add: init)
  show "childnotready (mcs_init_node nthr i node) = havechild (mcs_init_node nthr i node)"
    by (simp add: init)
  show "parent (mcs_init_node nthr i node) =
           (if i = 0 then Dummy (unat i)
            else ChildNotReady (unat (drop_bit 2 (i - 1))) (unat ((i - 1) AND 3)))"
    by (simp add: init)
  show "children (mcs_init_node nthr i node) =
           [if push_bit 1 i + 1 \<ge> nthr then Dummy (unat i) else ParentSense (unat (push_bit 1 i + 1)),
            if push_bit 1 i + 2 \<ge> nthr then Dummy (unat i) else ParentSense (unat (push_bit 1 i + 2))]"
    by (simp add: init c)
  show "parentsense (mcs_init_node nthr i node) = 0"
    by (simp add: init)
  show "dummy (mcs_init_node nthr i node) = dummy node"
    by (simp add: init)
qed

lemma mcs_init_returns:
  assumes "unat nthr \<le> length barrier"
  shows "\<exists>b'. ck_barrier_mcs_init barrier nthr = Inr b' \<and> length b' = length barrier \<and>
           (\<forall>i < nthr. b' ! unat i = mcs_init_node nthr i (barrier ! unat i)) \<and>
           (\<forall>x < length barrier. unat nthr \<le> x \<longrightarrow> b' ! x = barrier ! x)"
proof -
  from mcs_init_loop_result [OF assms, of 0]
  obtain b' where b': "mcs_init_loop nthr 0 barrier = Inr b'" "length b' = length barrier"
      "\<forall>x < length barrier. b' ! x =
         (if unat (0::u32) \<le> x \<and> x < unat nthr then mcs_init_node nthr (of_nat x) (barrier ! x)
          else barrier ! x)"
    by blast
  have "b' ! unat i = mcs_init_node nthr i (barrier ! unat i)" if "i < nthr" for i
  proof -
    from that have "unat i < unat nthr" by (simp add: word_less_nat_alt)
    with assms b'(3) show ?thesis by simp
  qed
  moreover have "b' ! x = barrier ! x" if "x < length barrier" "unat nthr \<le> x" for x
    using that b'(3) by simp
  ultimately show ?thesis
    using b'(1,2) by (auto simp: ck_barrier_mcs_init_def)
qed

text \<open>
  Claim C2. After \<open>ck_barrier_mcs_init(barrier, N)\<close> with \<open>N \<ge> 1\<close>, on an array of at
  least \<open>N\<close> nodes, for every node index \<open>i < N\<close> and every \<open>j\<close> in 0..3:
  \<open>havechild[j]\<close> is all-ones exactly when \<open>(i<<2)+j < N-1\<close> and 0 otherwise;
  \<open>childnotready[j]\<close> equals \<open>havechild[j]\<close>; \<open>parent\<close> is the node's own dummy word
  when \<open>i = 0\<close> and \<open>barrier[(i-1)>>2].childnotready[(i-1)&3]\<close> otherwise; \<open>children[c]\<close>
  is \<open>barrier[2*i+1+c].parentsense\<close> when \<open>2*i+1+c < N\<close> and the node's own dummy word
  otherwise; and \<open>parentsense = 0\<close>. The index expressions are those of the source, on
  \<open>unsigned int\<close>.
\<close>

theorem mcs_init_topology:
  assumes "1 \<le> nthr" and "unat nthr \<le> length barrier"
    and "\<forall>node \<in> set barrier. mcs_node_ok node"
  shows "\<exists>b'. ck_barrier_mcs_init barrier nthr = Inr b' \<and> length b' = length barrier \<and>
    (\<forall>i < nthr.
       (\<forall>j < 4.
          havechild (b' ! unat i) ! j =
            (if push_bit 2 i + of_nat j < nthr - 1 then NOT 0 else 0) \<and>
          childnotready (b' ! unat i) ! j = havechild (b' ! unat i) ! j) \<and>
       parent (b' ! unat i) =
         (if i = 0 then Dummy (unat i)
          else ChildNotReady (unat (drop_bit 2 (i - 1))) (unat ((i - 1) AND 3))) \<and>
       (\<forall>c < 2.
          children (b' ! unat i) ! c =
            (if 2 * i + 1 + of_nat c < nthr then ParentSense (unat (2 * i + 1 + of_nat c))
             else Dummy (unat i))) \<and>
       parentsense (b' ! unat i) = 0)"
proof -
  from mcs_init_returns [OF assms(2)]
  obtain b' where b': "ck_barrier_mcs_init barrier nthr = Inr b'" "length b' = length barrier"
      "\<forall>i < nthr. b' ! unat i = mcs_init_node nthr i (barrier ! unat i)"
    by blast
  have "(\<forall>j < 4.
          havechild (b' ! unat i) ! j =
            (if push_bit 2 i + of_nat j < nthr - 1 then NOT 0 else 0) \<and>
          childnotready (b' ! unat i) ! j = havechild (b' ! unat i) ! j) \<and>
       parent (b' ! unat i) =
         (if i = 0 then Dummy (unat i)
          else ChildNotReady (unat (drop_bit 2 (i - 1))) (unat ((i - 1) AND 3))) \<and>
       (\<forall>c < 2.
          children (b' ! unat i) ! c =
            (if 2 * i + 1 + of_nat c < nthr then ParentSense (unat (2 * i + 1 + of_nat c))
             else Dummy (unat i))) \<and>
       parentsense (b' ! unat i) = 0" if i: "i < nthr" for i
  proof -
    from i have "unat i < length barrier"
      using assms(2) by (simp add: word_less_nat_alt)
    with assms(3) have ok: "mcs_node_ok (barrier ! unat i)" by simp
    note fields = mcs_init_node_fields [OF ok, of nthr i]
    have eq: "b' ! unat i = mcs_init_node nthr i (barrier ! unat i)"
      using b'(3) i by simp
    have slots: "havechild (b' ! unat i) ! j =
            (if push_bit 2 i + of_nat j < nthr - 1 then NOT 0 else 0) \<and>
          childnotready (b' ! unat i) ! j = havechild (b' ! unat i) ! j" if "j < 4" for j
    proof -
      from that consider "j = 0" | "j = 1" | "j = 2" | "j = 3" by linarith
      then show ?thesis
        by cases (simp_all add: eq fields mcs_flag_def)
    qed
    have twice: "push_bit 1 i + 1 = 2 * i + 1 + of_nat 0" "push_bit 1 i + 2 = 2 * i + 1 + of_nat 1"
      by (simp_all add: push_bit_eq_mult)
    note kid_fields = fields(4) [unfolded twice]
    have kids: "children (b' ! unat i) ! c =
            (if 2 * i + 1 + of_nat c < nthr then ParentSense (unat (2 * i + 1 + of_nat c))
             else Dummy (unat i))" if "c < 2" for c
    proof -
      from that consider "c = 0" | "c = 1" by linarith
      then show ?thesis
        by cases (simp_all only: eq kid_fields nth_Cons_0 nth_Cons_Suc One_nat_def not_le [symmetric], auto)
    qed
    from slots kids show ?thesis
      by (simp add: eq fields(3,5))
  qed
  with b'(1,2) show ?thesis by blast
qed

text \<open>A node as the caller may hand it over, before initialisation.\<close>

definition mcs_blank :: ck_barrier_mcs where
  "mcs_blank = \<lparr>children = [Dummy 0, Dummy 0], childnotready = [0, 0, 0, 0], dummy = 0,
     havechild = [0, 0, 0, 0], parent = Dummy 0, parentsense = 1\<rparr>"

text \<open>Two nodes: node 1 is the only child of node 0 in both trees.\<close>

theorem mcs_init_topology_witness:
  "(1::u32) \<le> 2 \<and> unat (2::u32) \<le> length (replicate 2 mcs_blank) \<and>
   (\<exists>b'. ck_barrier_mcs_init (replicate 2 mcs_blank) 2 = Inr b' \<and>
      havechild (b' ! 0) ! 0 = NOT 0 \<and> havechild (b' ! 0) ! 1 = 0 \<and>
      childnotready (b' ! 0) ! 0 = NOT 0 \<and> havechild (b' ! 1) ! 0 = 0 \<and>
      parent (b' ! 0) = Dummy 0 \<and> parent (b' ! 1) = ChildNotReady 0 0 \<and>
      children (b' ! 0) ! 0 = ParentSense 1 \<and> children (b' ! 0) ! 1 = Dummy 0 \<and>
      parentsense (b' ! 0) = 0 \<and> parentsense (b' ! 1) = 0)"
proof -
  have h1: "(1::u32) \<le> 2" by simp
  have h2: "unat (2::u32) \<le> length (replicate 2 mcs_blank)" by simp
  have h3: "\<forall>node \<in> set (replicate 2 mcs_blank). mcs_node_ok node"
    by (simp add: mcs_blank_def mcs_node_ok_def)
  from mcs_init_topology [OF h1 h2 h3]
  obtain b' where b': "ck_barrier_mcs_init (replicate 2 mcs_blank) 2 = Inr b'"
    and all: "\<forall>i < 2.
       (\<forall>j < 4.
          havechild (b' ! unat i) ! j =
            (if push_bit 2 i + of_nat j < (2::u32) - 1 then NOT 0 else 0) \<and>
          childnotready (b' ! unat i) ! j = havechild (b' ! unat i) ! j) \<and>
       parent (b' ! unat i) =
         (if i = 0 then Dummy (unat i)
          else ChildNotReady (unat (drop_bit 2 (i - 1))) (unat ((i - 1) AND 3))) \<and>
       (\<forall>c < 2.
          children (b' ! unat i) ! c =
            (if 2 * i + 1 + of_nat c < (2::u32) then ParentSense (unat (2 * i + 1 + of_nat c))
             else Dummy (unat i))) \<and>
       parentsense (b' ! unat i) = 0"
    by blast
  from all [rule_format, of 0] have node0:
    "\<forall>j < 4. havechild (b' ! 0) ! j = (if of_nat j < (1::u32) then NOT 0 else 0) \<and>
       childnotready (b' ! 0) ! j = havechild (b' ! 0) ! j"
    "parent (b' ! 0) = Dummy 0"
    "\<forall>c < 2. children (b' ! 0) ! c =
       (if 1 + of_nat c < (2::u32) then ParentSense (unat (1 + of_nat c :: u32)) else Dummy 0)"
    "parentsense (b' ! 0) = 0"
    by simp_all
  from all [rule_format, of 1] have node1:
    "\<forall>j < 4. havechild (b' ! 1) ! j = (if 4 + of_nat j < (1::u32) then NOT 0 else 0) \<and>
       childnotready (b' ! 1) ! j = havechild (b' ! 1) ! j"
    "parent (b' ! 1) = ChildNotReady 0 0"
    "parentsense (b' ! 1) = 0"
    by simp_all
  from node0(1) [rule_format, of 0] node0(1) [rule_format, of 1] node1(1) [rule_format, of 0]
    node0(3) [rule_format, of 0] node0(3) [rule_format, of 1]
  have "havechild (b' ! 0) ! 0 = NOT 0" "havechild (b' ! 0) ! 1 = 0"
      "childnotready (b' ! 0) ! 0 = NOT 0" "havechild (b' ! 1) ! 0 = 0"
      "children (b' ! 0) ! 0 = ParentSense 1" "children (b' ! 0) ! 1 = Dummy 0"
    by simp_all
  with b' node0(2,4) node1(2,3) h1 h2 show ?thesis by blast
qed


text \<open>
  With \<open>N = 7\<close> the bound \<open>N - 1\<close> is 6, and \<open>(0<<2)+j\<close> is below it for all four \<open>j\<close>:
  nodes 1, 2, 3 and 4 are the children of node 0 in the arrival tree.
\<close>

lemma mcs_init_7_node0:
  assumes "7 \<le> length barrier" and "mcs_node_ok (barrier ! 0)"
  shows "\<exists>b'. ck_barrier_mcs_init barrier 7 = Inr b' \<and>
           havechild (b' ! 0) = [NOT 0, NOT 0, NOT 0, NOT 0]"
proof -
  from assms(1) have "unat (7::u32) \<le> length barrier" by simp
  from mcs_init_returns [OF this]
  obtain b' where b': "ck_barrier_mcs_init barrier 7 = Inr b'"
      "\<forall>i < 7. b' ! unat i = mcs_init_node 7 i (barrier ! unat i)"
    by blast
  from b'(2) [rule_format, of 0] have "b' ! 0 = mcs_init_node 7 0 (barrier ! 0)"
    by simp
  with b'(1) mcs_init_node_fields(1) [OF assms(2), of 7 0] show ?thesis
    by (simp add: mcs_flag_def)
qed

text \<open>
  Claim C8, as amended. After \<open>ck_barrier_mcs_init(barrier, 7)\<close> node 0's \<open>havechild\<close>
  array equals \<open>{~0, ~0, ~0, ~0}\<close>: all four slots are all-ones.
\<close>

theorem mcs_init_7_havechild:
  assumes "7 \<le> length barrier" and "\<forall>node \<in> set barrier. mcs_node_ok node"
  shows "\<exists>b'. ck_barrier_mcs_init barrier 7 = Inr b' \<and>
           havechild (b' ! 0) = [NOT 0, NOT 0, NOT 0, NOT 0]"
proof -
  from assms(1) have "barrier ! 0 \<in> set barrier" by (intro nth_mem) auto
  with assms(2) have "mcs_node_ok (barrier ! 0)" by blast
  with assms(1) show ?thesis by (rule mcs_init_7_node0)
qed

theorem mcs_init_7_havechild_witness:
  "7 \<le> length (replicate 7 mcs_blank) \<and>
   (\<exists>b'. ck_barrier_mcs_init (replicate 7 mcs_blank) 7 = Inr b' \<and>
      havechild (b' ! 0) = [NOT 0, NOT 0, NOT 0, NOT 0])"
proof -
  have h1: "7 \<le> length (replicate 7 mcs_blank)" by simp
  have h2: "\<forall>node \<in> set (replicate 7 mcs_blank). mcs_node_ok node"
    by (simp add: mcs_blank_def mcs_node_ok_def)
  from mcs_init_7_havechild [OF h1 h2] h1 show ?thesis by blast
qed

text \<open>
  Claim C8 as stated (\<open>havechild = {~0, ~0, ~0, 0}\<close> for node 0 when \<open>N = 7\<close>) fails:
  the call returns, and slot 3 of node 0 is all-ones, not zero.
\<close>

theorem mcs_init_7_counterexample:
  "\<not> isl (ck_barrier_mcs_init (replicate 7 mcs_blank) 7) \<and>
   havechild (projr (ck_barrier_mcs_init (replicate 7 mcs_blank) 7) ! 0) \<noteq> [NOT 0, NOT 0, NOT 0, 0]"
proof -
  have "mcs_node_ok (replicate 7 mcs_blank ! 0)"
    by (simp add: mcs_blank_def mcs_node_ok_def)
  with mcs_init_7_node0 [of "replicate 7 mcs_blank"]
  obtain b' where "ck_barrier_mcs_init (replicate 7 mcs_blank) 7 = Inr b'"
      "havechild (b' ! 0) = [NOT 0, NOT 0, NOT 0, NOT 0]"
    by auto
  then show ?thesis by simp
qed


section \<open>Combining tree barrier\<close>

text \<open>
  Modelled from the spec: the group and root types of \<open>ck_barrier.h\<close>, with the fields
  the source uses. Groups live in a heap, a map from addresses to groups; a pointer to a
  group is an address or \<open>NULL\<close> (\<open>None\<close>). The queue of the level-order traversal is
  threaded through the \<open>next\<close> fields of the groups themselves.
\<close>

record ck_barrier_combining_group =
  g_k :: u32
  g_count :: u32
  g_sense :: u32
  g_parent :: "nat option"
  g_lchild :: "nat option"
  g_rchild :: "nat option"
  g_next :: "nat option"

record ck_barrier_combining_queue =
  q_head :: "nat option"
  q_tail :: "nat option"

record ck_barrier_combining =
  c_root :: "nat option"
  c_mutex :: bool

type_synonym group_heap = "nat \<rightharpoonup> ck_barrier_combining_group"

text \<open>Reading and writing through a group pointer; \<open>NULL\<close> and unallocated addresses fault.\<close>

definition deref :: "group_heap \<Rightarrow> nat option \<Rightarrow> error + ck_barrier_combining_group" where
  "deref heap p =
     (case p of
        None \<Rightarrow> Inl NullPointer
      | Some a \<Rightarrow> (case heap a of None \<Rightarrow> Inl OutOfBounds | Some g \<Rightarrow> Inr g))"

definition modify ::
  "group_heap \<Rightarrow> nat option \<Rightarrow> (ck_barrier_combining_group \<Rightarrow> ck_barrier_combining_group)
   \<Rightarrow> error + group_heap" where
  "modify heap p f =
     (case p of
        None \<Rightarrow> Inl NullPointer
      | Some a \<Rightarrow> (case heap a of None \<Rightarrow> Inl OutOfBounds | Some g \<Rightarrow> Inr (heap(a \<mapsto> f g))))"

definition ck_barrier_combining_queue_enqueue ::
  "ck_barrier_combining_queue \<Rightarrow> nat option \<Rightarrow> group_heap
   \<Rightarrow> error + (ck_barrier_combining_queue \<times> group_heap)" where
  "ck_barrier_combining_queue_enqueue queue node_value heap =
     ebind (modify heap node_value (\<lambda>g. g\<lparr>g_next := None\<rparr>)) (\<lambda>heap.
       if q_head queue = None then
         Inr (queue\<lparr>q_head := node_value, q_tail := node_value\<rparr>, heap)
       else
         ebind (modify heap (q_tail queue) (\<lambda>g. g\<lparr>g_next := node_value\<rparr>)) (\<lambda>heap.
           Inr (queue\<lparr>q_tail := node_value\<rparr>, heap)))"

definition ck_barrier_combining_queue_dequeue ::
  "ck_barrier_combining_queue \<Rightarrow> group_heap
   \<Rightarrow> error + (nat option \<times> ck_barrier_combining_queue)" where
  "ck_barrier_combining_queue_dequeue queue heap =
     (if q_head queue \<noteq> None then
        ebind (deref heap (q_head queue)) (\<lambda>h.
          Inr (q_head queue, queue\<lparr>q_head := g_next h\<rparr>))
      else Inr (None, queue))"

text \<open>
  The third argument of \<open>ck_barrier_combining_insert\<close> is \<open>&parent->lchild\<close> or
  \<open>&parent->rchild\<close>: a reference to one of the two child fields of the parent.
\<close>

datatype child_ref = Lchild | Rchild

definition ck_barrier_combining_insert ::
  "nat option \<Rightarrow> nat option \<Rightarrow> child_ref \<Rightarrow> group_heap \<Rightarrow> error + group_heap" where
  "ck_barrier_combining_insert parent_group tnode child heap =
     ebind (modify heap parent_group
              (\<lambda>g. case child of Lchild \<Rightarrow> g\<lparr>g_lchild := tnode\<rparr> | Rchild \<Rightarrow> g\<lparr>g_rchild := tnode\<rparr>))
       (\<lambda>heap.
     ebind (modify heap tnode (\<lambda>g. g\<lparr>g_parent := parent_group\<rparr>)) (\<lambda>heap.
     modify heap parent_group (\<lambda>g. g\<lparr>g_k := g_k g + 1\<rparr>)))"

definition ck_barrier_combining_try_insert ::
  "nat option \<Rightarrow> nat option \<Rightarrow> group_heap \<Rightarrow> error + (bool \<times> group_heap)" where
  "ck_barrier_combining_try_insert parent_group tnode heap =
     ebind (deref heap parent_group) (\<lambda>p.
       if g_lchild p = None then
         ebind (ck_barrier_combining_insert parent_group tnode Lchild heap) (\<lambda>heap. Inr (True, heap))
       else if g_rchild p = None then
         ebind (ck_barrier_combining_insert parent_group tnode Rchild heap) (\<lambda>heap. Inr (True, heap))
       else Inr (False, heap))"

text \<open>
  The loop \<open>while (queue.head != NULL)\<close> of \<open>ck_barrier_combining_group_init\<close>. On a heap
  whose child pointers form a cycle it need not end, so not returning is \<open>None\<close>.
\<close>

partial_function (option) group_init_loop ::
  "nat option \<Rightarrow> ck_barrier_combining_queue \<Rightarrow> group_heap \<Rightarrow> (error + group_heap) option" where
  "group_init_loop tnode queue heap =
     (if q_head queue \<noteq> None then
        (case ck_barrier_combining_queue_dequeue queue heap of
           Inl e \<Rightarrow> Some (Inl e)
         | Inr (node, queue) \<Rightarrow>
             (case ck_barrier_combining_try_insert node tnode heap of
                Inl e \<Rightarrow> Some (Inl e)
              | Inr (inserted, heap) \<Rightarrow>
                  if inserted then Some (Inr heap)
                  else
                    (case ebind (deref heap node) (\<lambda>n.
                            ebind (ck_barrier_combining_queue_enqueue queue (g_lchild n) heap)
                              (\<lambda>(queue, heap).
                            ebind (deref heap node) (\<lambda>n.
                              ck_barrier_combining_queue_enqueue queue (g_rchild n) heap))) of
                       Inl e \<Rightarrow> Some (Inl e)
                     | Inr (queue, heap) \<Rightarrow> group_init_loop tnode queue heap)))
      else Some (Inr heap))"

text \<open>
  Modelled from the spec: the spinlock of \<open>ck_spinlock.h\<close>, a test-and-set lock with
  \<open>init\<close>, \<open>lock\<close> and \<open>unlock\<close>. A thread that finds it taken spins.
\<close>

definition ck_spinlock_fas_lock :: "ck_barrier_combining \<Rightarrow> error + ck_barrier_combining" where
  "ck_spinlock_fas_lock root = (if c_mutex root then Inl StillSpinning else Inr (root\<lparr>c_mutex := True\<rparr>))"

definition ck_spinlock_fas_unlock :: "ck_barrier_combining \<Rightarrow> ck_barrier_combining" where
  "ck_spinlock_fas_unlock root = root\<lparr>c_mutex := False\<rparr>"

definition ck_barrier_combining_group_init ::
  "ck_barrier_combining \<Rightarrow> nat option \<Rightarrow> u32 \<Rightarrow> group_heap
   \<Rightarrow> (error + (ck_barrier_combining \<times> group_heap)) option" where
  "ck_barrier_combining_group_init root tnode nthr heap =
     (let queue = \<lparr>q_head = None, q_tail = None\<rparr> in
      case ebind (modify heap tnode
                    (\<lambda>g. g\<lparr>g_k := nthr, g_count := 0, g_sense := 0,
                            g_rchild := None, g_lchild := None\<rparr>)) (\<lambda>heap.
           ebind (ck_spinlock_fas_lock root) (\<lambda>root.
           ebind (ck_barrier_combining_queue_enqueue queue (c_root root) heap) (\<lambda>(queue, heap).
             Inr (root, queue, heap)))) of
        Inl e \<Rightarrow> Some (Inl e)
      | Inr (root, queue, heap) \<Rightarrow>
          (case group_init_loop tnode queue heap of
             None \<Rightarrow> None
           | Some (Inl e) \<Rightarrow> Some (Inl e)
           | Some (Inr heap) \<Rightarrow> Some (Inr (ck_spinlock_fas_unlock root, heap))))"

definition ck_barrier_combining_init ::
  "ck_barrier_combining \<Rightarrow> nat option \<Rightarrow> group_heap \<Rightarrow> error + (ck_barrier_combining \<times> group_heap)" where
  "ck_barrier_combining_init root init_root heap =
     ebind (modify heap init_root
              (\<lambda>g. g\<lparr>g_k := 0, g_count := 0, g_sense := 0,
                      g_rchild := None, g_lchild := None, g_parent := None\<rparr>)) (\<lambda>heap.
       Inr (root\<lparr>c_mutex := False, c_root := init_root\<rparr>, heap))"

text \<open>
  The scenario of the spec: \<open>ck_barrier_combining_init\<close> on the seed group at address 0,
  then three calls of \<open>ck_barrier_combining_group_init\<close> with \<open>nthr = 2\<close>, for the groups at
  the addresses 1, 2 and 3, each call on the root descriptor and heap the one before left.
\<close>

definition then_group_init ::
  "(error + (ck_barrier_combining \<times> group_heap)) option \<Rightarrow> nat \<Rightarrow> u32
   \<Rightarrow> (error + (ck_barrier_combining \<times> group_heap)) option" where
  "then_group_init before tnode nthr =
     (case before of
        None \<Rightarrow> None
      | Some (Inl e) \<Rightarrow> Some (Inl e)
      | Some (Inr (root, heap)) \<Rightarrow> ck_barrier_combining_group_init root (Some tnode) nthr heap)"

definition three_groups ::
  "ck_barrier_combining \<Rightarrow> group_heap \<Rightarrow> (error + (ck_barrier_combining \<times> group_heap)) option" where
  "three_groups root heap =
     then_group_init (then_group_init (then_group_init
       (Some (ck_barrier_combining_init root (Some 0) heap)) 1 2) 2 2) 3 2"

text \<open>The group at an address in the heap a sequence of calls returned.\<close>

definition group_at ::
  "(error + (ck_barrier_combining \<times> group_heap)) option \<Rightarrow> nat \<Rightarrow> ck_barrier_combining_group option" where
  "group_at outcome a =
     (case outcome of
        None \<Rightarrow> None
      | Some (Inl e) \<Rightarrow> None
      | Some (Inr (root, heap)) \<Rightarrow> heap a)"

definition blank_group :: ck_barrier_combining_group where
  "blank_group = \<lparr>g_k = 9, g_count = 9, g_sense = 9, g_parent = Some 7, g_lchild = Some 7,
     g_rchild = Some 7, g_next = Some 7\<rparr>"

lemmas combining_defs =
  three_groups_def then_group_init_def ck_barrier_combining_init_def
  ck_barrier_combining_group_init_def modify_def deref_def ebind_simps
  ck_spinlock_fas_lock_def ck_spinlock_fas_unlock_def
  ck_barrier_combining_queue_enqueue_def ck_barrier_combining_queue_dequeue_def
  group_init_loop.simps ck_barrier_combining_try_insert_def ck_barrier_combining_insert_def

lemma three_groups_result:
  "three_groups root [0 \<mapsto> a, 1 \<mapsto> b, 2 \<mapsto> c, 3 \<mapsto> d] =
     Some (Inr (root\<lparr>c_root := Some 0, c_mutex := False\<rparr>,
       [0 \<mapsto> a\<lparr>g_k := 2, g_count := 0, g_sense := 0, g_parent := None,
                g_lchild := Some 1, g_rchild := Some 2, g_next := None\<rparr>,
        1 \<mapsto> b\<lparr>g_k := 3, g_count := 0, g_sense := 0, g_parent := Some 0,
                g_lchild := Some 3, g_rchild := None, g_next := Some 2\<rparr>,
        2 \<mapsto> c\<lparr>g_k := 2, g_count := 0, g_sense := 0, g_parent := Some 0,
                g_lchild := None, g_rchild := None, g_next := None\<rparr>,
        3 \<mapsto> d\<lparr>g_k := 2, g_count := 0, g_sense := 0, g_parent := Some 1,
                g_lchild := None, g_rchild := None\<rparr>]))"
  by (simp add: combining_defs) (rule ext, simp)

text \<open>
  Claim C7, as amended. Starting from \<open>ck_barrier_combining_init\<close> with a seed root group
  (\<open>k = 0\<close>), after three sequential \<open>ck_barrier_combining_group_init\<close> calls with
  \<open>nthr = 2\<close>, whatever the four groups and the root descriptor held before: the seed
  has \<open>k = 2\<close> with the first two inserted groups as its left and right child; the first
  inserted group has \<open>k = 3\<close>, because the level-order insertion attaches the third
  group as its left child and increments its \<open>k\<close>; the second and the third inserted
  group have \<open>k = 2\<close>.
\<close>

theorem combining_three_groups:
  "map_option g_k (group_at (three_groups root [0 \<mapsto> a, 1 \<mapsto> b, 2 \<mapsto> c, 3 \<mapsto> d]) 0) = Some 2 \<and>
   map_option g_lchild (group_at (three_groups root [0 \<mapsto> a, 1 \<mapsto> b, 2 \<mapsto> c, 3 \<mapsto> d]) 0) = Some (Some 1) \<and>
   map_option g_rchild (group_at (three_groups root [0 \<mapsto> a, 1 \<mapsto> b, 2 \<mapsto> c, 3 \<mapsto> d]) 0) = Some (Some 2) \<and>
   map_option g_k (group_at (three_groups root [0 \<mapsto> a, 1 \<mapsto> b, 2 \<mapsto> c, 3 \<mapsto> d]) 1) = Some 3 \<and>
   map_option g_lchild (group_at (three_groups root [0 \<mapsto> a, 1 \<mapsto> b, 2 \<mapsto> c, 3 \<mapsto> d]) 1) = Some (Some 3) \<and>
   map_option g_k (group_at (three_groups root [0 \<mapsto> a, 1 \<mapsto> b, 2 \<mapsto> c, 3 \<mapsto> d]) 2) = Some 2 \<and>
   map_option g_k (group_at (three_groups root [0 \<mapsto> a, 1 \<mapsto> b, 2 \<mapsto> c, 3 \<mapsto> d]) 3) = Some 2 \<and>
   map_option g_parent (group_at (three_groups root [0 \<mapsto> a, 1 \<mapsto> b, 2 \<mapsto> c, 3 \<mapsto> d]) 3) = Some (Some 1)"
  unfolding three_groups_result by (simp add: group_at_def)

text \<open>
  Claim C7 as stated (the first inserted child has \<open>k = 2\<close> after all three insertions)
  fails: its \<open>k\<close> is not 2.
\<close>

theorem combining_three_groups_counterexample:
  "map_option g_k (group_at (three_groups \<lparr>c_root = None, c_mutex = False\<rparr>
      [0 \<mapsto> blank_group, 1 \<mapsto> blank_group, 2 \<mapsto> blank_group, 3 \<mapsto> blank_group]) 1) \<noteq> Some 2"
  unfolding three_groups_result by (simp add: group_at_def)


section \<open>The integer helpers compute the rounded-up binary logarithm\<close>

text \<open>On a power of two the bit-group algorithm returns the exponent.\<close>

lemma log_pow2: "list_all (\<lambda>m. ck_barrier_internal_log (2 ^ m) = of_nat m) [0..<32]"
  by code_simp

lemma log_zero: "ck_barrier_internal_log 0 = 0"
  by (simp add: ck_barrier_internal_log_def log_b_def eval_nat_numeral)

text \<open>
  One step \<open>v |= v >> d\<close> of the bit smear: if bit \<open>k\<close> of \<open>y\<close> collects the \<open>d\<close> bits of
  \<open>x\<close> from \<open>k\<close> upwards, then afterwards it collects \<open>2d\<close> of them.
\<close>

lemma smear_step:
  fixes x y :: u32
  assumes "\<And>k. bit y k = (\<exists>j<d. bit x (k + j))"
  shows "bit (y OR drop_bit d y) k = (\<exists>j<d + d. bit x (k + j))"
proof -
  have "bit (y OR drop_bit d y) k \<longleftrightarrow> (\<exists>j<d. bit x (k + j)) \<or> (\<exists>j<d. bit x (d + k + j))"
    by (simp add: bit_or_iff bit_drop_bit_eq assms)
  also have "\<dots> \<longleftrightarrow> (\<exists>j<d + d. bit x (k + j))"
  proof
    assume "(\<exists>j<d. bit x (k + j)) \<or> (\<exists>j<d. bit x (d + k + j))"
    then show "\<exists>j<d + d. bit x (k + j)"
    proof
      assume "\<exists>j<d. bit x (k + j)"
      then obtain j where "j < d" "bit x (k + j)" by blast
      then show ?thesis by (intro exI [of _ j]) simp
    next
      assume "\<exists>j<d. bit x (d + k + j)"
      then obtain j where "j < d" "bit x (d + k + j)" by blast
      then show ?thesis by (intro exI [of _ "d + j"]) (simp add: ac_simps)
    qed
  next
    assume "\<exists>j<d + d. bit x (k + j)"
    then obtain j where j: "j < d + d" "bit x (k + j)" by blast
    show "(\<exists>j<d. bit x (k + j)) \<or> (\<exists>j<d. bit x (d + k + j))"
    proof (cases "j < d")
      case True
      with j show ?thesis by blast
    next
      case False
      with j have "j - d < d" "bit x (d + k + (j - d))" by (simp_all add: ac_simps)
      then show ?thesis by blast
    qed
  qed
  finally show ?thesis .
qed

text \<open>The five smear steps of \<open>ck_barrier_internal_power_2\<close>, between \<open>--v\<close> and \<open>++v\<close>.\<close>

definition smear :: "u32 \<Rightarrow> u32" where
  "smear v0 = (let v = v0;
          v = v OR drop_bit 1 v;
          v = v OR drop_bit 2 v;
          v = v OR drop_bit 4 v;
          v = v OR drop_bit 8 v;
          v = v OR drop_bit 16 v
      in v)"

lemma power_2_smear: "ck_barrier_internal_power_2 v = smear (v - 1) + 1"
  by (simp add: ck_barrier_internal_power_2_def smear_def Let_def)

lemma bit_smear: "bit (smear x) k = (\<exists>j<32. bit x (k + j))"
proof -
  have 0: "bit x k = (\<exists>j<1. bit x (k + j))" for k by simp
  have 1: "bit (x OR drop_bit 1 x) k = (\<exists>j<2. bit x (k + j))" for k
    using smear_step [of x 1 x k, OF 0] by (simp only: one_add_one)
  let ?a = "x OR drop_bit 1 x"
  have 2: "bit (?a OR drop_bit 2 ?a) k = (\<exists>j<4. bit x (k + j))" for k
    using smear_step [of ?a 2 x k, OF 1] by (simp only: numeral_plus_numeral semiring_norm)
  let ?b = "?a OR drop_bit 2 ?a"
  have 3: "bit (?b OR drop_bit 4 ?b) k = (\<exists>j<8. bit x (k + j))" for k
    using smear_step [of ?b 4 x k, OF 2] by (simp only: numeral_plus_numeral semiring_norm)
  let ?c = "?b OR drop_bit 4 ?b"
  have 4: "bit (?c OR drop_bit 8 ?c) k = (\<exists>j<16. bit x (k + j))" for k
    using smear_step [of ?c 8 x k, OF 3] by (simp only: numeral_plus_numeral semiring_norm)
  let ?d = "?c OR drop_bit 8 ?c"
  have 5: "bit (?d OR drop_bit 16 ?d) k = (\<exists>j<32. bit x (k + j))" for k
    using smear_step [of ?d 16 x k, OF 4] by (simp only: numeral_plus_numeral semiring_norm)
  show ?thesis unfolding smear_def Let_def by (rule 5)
qed

text \<open>
  If \<open>m\<close> is the number of significant bits of \<open>x\<close>, the smear sets exactly the low \<open>m\<close>
  bits.
\<close>

lemma smear_mask:
  fixes x :: u32
  assumes "unat x < 2 ^ m" and "m = 0 \<or> bit x (m - 1)" and "m \<le> 32"
  shows "smear x = mask m"
proof (rule bit_eqI)
  fix k
  assume "possible_bit TYPE(u32) k"
  then have k: "k < 32" by (simp add: possible_bit_def)
  have "unat (take_bit m x) = unat x"
    using assms(1) by (simp add: unsigned_take_bit_eq take_bit_nat_eq_self_iff)
  then have low: "take_bit m x = x" by (simp add: word_unat_eq_iff)
  have high: "\<not> bit x i" if "m \<le> i" for i
  proof -
    have "bit x i = bit (take_bit m x) i" by (simp only: low)
    with that show ?thesis by (simp add: bit_take_bit_iff)
  qed
  show "bit (smear x) k \<longleftrightarrow> bit (mask m :: u32) k"
  proof (cases "k < m")
    case True
    with assms(2) have top: "bit x (m - 1)" by auto
    from True assms(3) have "m - 1 - k < 32" "k + (m - 1 - k) = m - 1" by simp_all
    with top have "\<exists>j<32. bit x (k + j)" by metis
    with True k show ?thesis by (simp add: bit_smear bit_mask_iff)
  next
    case False
    then have "\<not> bit x (k + j)" for j by (intro high) simp
    with False show ?thesis by (simp add: bit_smear bit_mask_iff)
  qed
qed


lemma top_bit:
  fixes x :: u32
  assumes "2 ^ j \<le> unat x" and "unat x < 2 ^ Suc j"
  shows "bit x j"
proof -
  from assms have "unat x div 2 ^ j = 1"
    by (intro Euclidean_Rings.div_nat_eqI) simp_all
  then have "bit (unat x) j" by (simp add: bit_iff_odd)
  then show ?thesis by (simp add: bit_unsigned_iff)
qed

text \<open>
  The expression \<open>ck_barrier_internal_log(ck_barrier_internal_power_2(nthr))\<close>, which the
  source computes for the number of rounds. For \<open>1 \<le> nthr \<le> 2^31\<close> it is the least \<open>R\<close>
  with \<open>nthr \<le> 2^R\<close>, that is \<open>k < R\<close> exactly when \<open>2^k < nthr\<close>; for larger \<open>nthr\<close> (and
  for 0) the next power of two overflows to 0 and the result is 0.
\<close>

definition nthr_log :: "u32 \<Rightarrow> u32" where
  "nthr_log nthr = ck_barrier_internal_log (ck_barrier_internal_power_2 nthr)"

lemma nthr_log_rounds:
  assumes "1 \<le> unat nthr" and "unat nthr \<le> 2 ^ 31"
  shows "k < unat (nthr_log nthr) \<longleftrightarrow> 2 ^ k < unat nthr"
    and "unat (nthr_log nthr) \<le> 31"
proof -
  let ?x = "nthr - 1"
  from assms(1) have x: "unat ?x = unat nthr - 1"
    by (simp add: unat_sub word_le_nat_alt)
  with assms have x31: "unat ?x < 2 ^ 31" by simp
  define m where "m = (LEAST m. unat ?x < 2 ^ m)"
  have lt: "unat ?x < 2 ^ m"
    unfolding m_def using x31 by (rule LeastI)
  have m31: "m \<le> 31"
    unfolding m_def using x31 by (rule Least_le)
  have ge: "2 ^ (m - 1) \<le> unat ?x" if "0 < m"
  proof (rule ccontr)
    assume "\<not> 2 ^ (m - 1) \<le> unat ?x"
    then have "unat ?x < 2 ^ (m - 1)" by simp
    then have "m \<le> m - 1" unfolding m_def by (rule Least_le)
    with that show False by simp
  qed
  have "m = 0 \<or> bit ?x (m - 1)"
  proof (cases m)
    case 0
    then show ?thesis by simp
  next
    case (Suc j)
    with ge lt have "bit ?x j" by (intro top_bit) simp_all
    with Suc show ?thesis by simp
  qed
  with lt m31 have "smear ?x = mask m" by (intro smear_mask) simp_all
  then have "ck_barrier_internal_power_2 nthr = 2 ^ m"
    by (simp add: power_2_smear mask_eq_decr_exp)
  moreover from m31 log_pow2 have "ck_barrier_internal_log (2 ^ m) = of_nat m"
    by (simp add: list_all_iff)
  ultimately have "nthr_log nthr = of_nat m" by (simp add: nthr_log_def)
  with m31 have log: "unat (nthr_log nthr) = m"
    by (simp add: unat_of_nat take_bit_nat_eq_self)
  show "unat (nthr_log nthr) \<le> 31" using log m31 by simp
  show "k < unat (nthr_log nthr) \<longleftrightarrow> 2 ^ k < unat nthr"
  proof
    assume "k < unat (nthr_log nthr)"
    with log have "k \<le> m - 1" "0 < m" by simp_all
    then have "(2::nat) ^ k \<le> 2 ^ (m - 1)" by (intro power_increasing) simp_all
    also from ge \<open>0 < m\<close> have "\<dots> \<le> unat ?x" by simp
    also from x assms(1) have "\<dots> < unat nthr" by simp
    finally show "2 ^ k < unat nthr" .
  next
    assume "2 ^ k < unat nthr"
    with x have "2 ^ k \<le> unat ?x" by simp
    from this lt have "(2::nat) ^ k < 2 ^ m" by (rule le_less_trans)
    then have "k < m" by (simp add: power_strict_increasing_iff)
    with log show "k < unat (nthr_log nthr)" by simp
  qed
qed

lemma nthr_log_overflow:
  assumes "unat nthr = 0 \<or> 2 ^ 31 < unat nthr"
  shows "nthr_log nthr = 0"
proof -
  let ?x = "nthr - 1"
  have "bit ?x 31"
  proof (cases "nthr = 0")
    case True
    then show ?thesis by simp
  next
    case False
    then have "1 \<le> unat nthr" by (simp add: unat_gt_0 Suc_leI)
    then have x: "unat ?x = unat nthr - 1" by (simp add: unat_sub word_le_nat_alt)
    from False assms have "2 ^ 31 < unat nthr" by (simp add: unat_eq_0)
    with x have "2 ^ 31 \<le> unat ?x" by simp
    moreover have "unat ?x < 2 ^ Suc 31" using unsigned_less [of ?x] by simp
    ultimately show ?thesis by (rule top_bit)
  qed
  moreover have "unat ?x < 2 ^ 32" using unsigned_less [of ?x] by simp
  ultimately have "smear ?x = mask 32" by (intro smear_mask) simp_all
  then have "ck_barrier_internal_power_2 nthr = 0"
    by (simp add: power_2_smear mask_eq_decr_exp)
  then show ?thesis by (simp add: nthr_log_def log_zero)
qed


section \<open>Tournament barrier\<close>

text \<open>
  Modelled from the spec: the round type and the roles of \<open>ck_barrier.h\<close>, with the
  fields and the five roles the source uses. \<open>rounds[i]\<close> is the row of thread \<open>i\<close>, allocated by
  the caller with as many slots as the size query says. A pointer to a flag is the
  address \<open>&rounds[i][k].flag\<close>, kept as the two indices.
\<close>

datatype role = BYE | CHAMPION | DROPOUT | LOSER | WINNER

datatype flag_ptr = Flag nat nat

record ck_barrier_tournament_round =
  role :: role
  opponent :: flag_ptr
  flag :: u32

record ck_barrier_tournament_state =
  ts_sense :: u32
  ts_vpid :: u32

type_synonym tournament_rounds = "ck_barrier_tournament_round list list"

definition ck_barrier_tournament_size :: "u32 \<Rightarrow> u32" where
  "ck_barrier_tournament_size nthr =
     ck_barrier_internal_log (ck_barrier_internal_power_2 nthr) + 1"

text \<open>Whether \<open>rounds[i][k]\<close> lies inside the caller's allocation.\<close>

definition in_rounds :: "tournament_rounds \<Rightarrow> nat \<Rightarrow> nat \<Rightarrow> bool" where
  "in_rounds rounds i k \<longleftrightarrow> i < length rounds \<and> k < length (rounds ! i)"

text \<open>
  The body of the inner loop of \<open>ck_barrier_tournament_round_init\<close>, on the entry
  \<open>rounds[i][k]\<close>. First the flag and the role: the second \<open>if\<close> is not chained to
  the first.
\<close>

definition round_init_role ::
  "u32 \<Rightarrow> u32 \<Rightarrow> u32 \<Rightarrow> u32 \<Rightarrow> ck_barrier_tournament_round \<Rightarrow> ck_barrier_tournament_round" where
  "round_init_role nthr i twok twokm1 entry =
     (let r = entry\<lparr>flag := 0\<rparr>;
          imod2k = i AND (twok - 1);
          r = (if imod2k = 0 then
                 (if i + twokm1 < nthr \<and> twok < nthr then r\<lparr>role := WINNER\<rparr>
                  else if i + twokm1 \<ge> nthr then r\<lparr>role := BYE\<rparr>
                  else r)
               else r)
      in if imod2k = twokm1 then r\<lparr>role := LOSER\<rparr>
         else if i = 0 \<and> twok \<ge> nthr then r\<lparr>role := CHAMPION\<rparr>
         else r)"

text \<open>
  Then the opponent, chosen from the role field as it then stands. \<open>rounds\<close> is an array
  of row pointers, so the address \<open>&rounds[j][k].flag\<close> needs the load of \<open>rounds[j]\<close>:
  a fault when \<open>j\<close> is outside the array of rows.
\<close>

definition flag_address :: "tournament_rounds \<Rightarrow> u32 \<Rightarrow> u32 \<Rightarrow> error + flag_ptr" where
  "flag_address rounds j k =
     (if unat j < length rounds then Inr (Flag (unat j) (unat k)) else Inl OutOfBounds)"

definition round_init_entry ::
  "tournament_rounds \<Rightarrow> u32 \<Rightarrow> u32 \<Rightarrow> u32 \<Rightarrow> u32 \<Rightarrow> u32 \<Rightarrow> ck_barrier_tournament_round
   \<Rightarrow> error + ck_barrier_tournament_round" where
  "round_init_entry rounds nthr i k twok twokm1 entry =
     (let r = round_init_role nthr i twok twokm1 entry
      in if role r = LOSER then
           ebind (flag_address rounds (i - twokm1) k) (\<lambda>p. Inr (r\<lparr>opponent := p\<rparr>))
         else if role r = WINNER \<or> role r = CHAMPION then
           ebind (flag_address rounds (i + twokm1) k) (\<lambda>p. Inr (r\<lparr>opponent := p\<rparr>))
         else Inr r)"

text \<open>
  The inner loop
  \<open>for (k = 1, twok = 2, twokm1 = 1; k < size; ++k, twokm1 = twok, twok <<= 1)\<close>.
\<close>

function round_init_rounds ::
  "u32 \<Rightarrow> u32 \<Rightarrow> u32 \<Rightarrow> u32 \<Rightarrow> u32 \<Rightarrow> u32 \<Rightarrow> tournament_rounds \<Rightarrow> error + tournament_rounds" where
  "round_init_rounds nthr size_n i k twok twokm1 rounds =
     (if k < size_n then
        (if in_rounds rounds (unat i) (unat k) then
           (case round_init_entry rounds nthr i k twok twokm1 (rounds ! unat i ! unat k) of
              Inl e \<Rightarrow> Inl e
            | Inr entry \<Rightarrow>
                round_init_rounds nthr size_n i (k + 1) (push_bit 1 twok) twok
                  (rounds[unat i := (rounds ! unat i)[unat k := entry]]))
         else Inl OutOfBounds)
      else Inr rounds)"
  by pat_completeness auto
termination
  by (relation "measure (\<lambda>(nthr, size_n, i, k, twok, twokm1, rounds). unat size_n - unat k)")
    (auto, unat_arith)

declare round_init_rounds.simps [simp del]

text \<open>The outer loop \<open>for (i = 0; i < nthr; ++i)\<close>, whose first role is always DROPOUT.\<close>

function round_init_threads ::
  "u32 \<Rightarrow> u32 \<Rightarrow> u32 \<Rightarrow> tournament_rounds \<Rightarrow> error + tournament_rounds" where
  "round_init_threads nthr size_n i rounds =
     (if i < nthr then
        (if in_rounds rounds (unat i) 0 then
           (case round_init_rounds nthr size_n i 1 2 1
                   (rounds[unat i := (rounds ! unat i)
                      [0 := (rounds ! unat i ! 0)\<lparr>flag := 0, role := DROPOUT\<rparr>]]) of
              Inl e \<Rightarrow> Inl e
            | Inr rounds \<Rightarrow> round_init_threads nthr size_n (i + 1) rounds)
         else Inl OutOfBounds)
      else Inr rounds)"
  by pat_completeness auto
termination
  by (relation "measure (\<lambda>(nthr, size_n, i, rounds). unat nthr - unat i)") (auto, unat_arith)

declare round_init_threads.simps [simp del]

definition ck_barrier_tournament_round_init ::
  "tournament_rounds \<Rightarrow> u32 \<Rightarrow> error + tournament_rounds" where
  "ck_barrier_tournament_round_init rounds nthr =
     (let size_n = ck_barrier_tournament_size nthr
      in round_init_threads nthr size_n 0 rounds)"

text \<open>
  \<open>ck_barrier_tournament\<close>. The round counter is an \<open>int\<close>; an entry outside the row of
  the thread is a fault.
\<close>

definition read_round :: "tournament_rounds \<Rightarrow> nat \<Rightarrow> int \<Rightarrow> error + ck_barrier_tournament_round" where
  "read_round rounds i round =
     (if 0 \<le> round \<and> in_rounds rounds i (nat round) then Inr (rounds ! i ! nat round)
      else Inl OutOfBounds)"

definition store_flag :: "tournament_rounds \<Rightarrow> flag_ptr \<Rightarrow> u32 \<Rightarrow> error + tournament_rounds" where
  "store_flag rounds p v =
     (case p of Flag i k \<Rightarrow>
        if in_rounds rounds i k then Inr (rounds[i := (rounds ! i)[k := (rounds ! i ! k)\<lparr>flag := v\<rparr>]])
        else Inl OutOfBounds)"

text \<open>
  The condition \<open>ck_pr_load_uint(&rounds[vpid][round].flag) != state->sense\<close> of the spin
  loops, and the store \<open>ck_pr_store_uint(rounds[vpid][round].opponent, state->sense)\<close>.
\<close>

definition own_flag_differs ::
  "ck_barrier_tournament_state \<Rightarrow> int \<Rightarrow> tournament_rounds \<Rightarrow> error + bool" where
  "own_flag_differs state round rounds =
     ebind (read_round rounds (unat (ts_vpid state)) round) (\<lambda>r. Inr (flag r \<noteq> ts_sense state))"

definition signal_opponent ::
  "ck_barrier_tournament_state \<Rightarrow> int \<Rightarrow> tournament_rounds \<Rightarrow> error + tournament_rounds" where
  "signal_opponent state round rounds =
     ebind (read_round rounds (unat (ts_vpid state)) round) (\<lambda>r.
       store_flag rounds (opponent r) (ts_sense state))"

text \<open>
  The arrival loop \<open>for (;; ++round)\<close>, which leaves for the wakeup loop with the round
  it stopped at, and the wakeup loop \<open>for (round -= 1;; --round)\<close>. Neither has a bound
  of its own, so not returning is \<open>None\<close>.
\<close>

partial_function (option) tournament_arrival ::
  "tournament_rounds env \<Rightarrow> tournament_rounds \<Rightarrow> ck_barrier_tournament_state \<Rightarrow> int
   \<Rightarrow> (error + (tournament_rounds \<times> tournament_rounds env \<times> int)) option" where
  "tournament_arrival environment rounds state round =
     (case read_round rounds (unat (ts_vpid state)) round of
        Inl e \<Rightarrow> Some (Inl e)
      | Inr r \<Rightarrow>
          (case role r of
             BYE \<Rightarrow> tournament_arrival environment rounds state (round + 1)
           | CHAMPION \<Rightarrow>
               Some (ebind (spin (own_flag_differs state round) environment rounds)
                 (\<lambda>(rounds, environment).
                    ebind (signal_opponent state round rounds) (\<lambda>rounds.
                      Inr (rounds, environment, round))))
           | DROPOUT \<Rightarrow> tournament_arrival environment rounds state (round + 1)
           | LOSER \<Rightarrow>
               Some (ebind (signal_opponent state round rounds) (\<lambda>rounds.
                 ebind (spin (own_flag_differs state round) environment rounds)
                   (\<lambda>(rounds, environment). Inr (rounds, environment, round))))
           | WINNER \<Rightarrow>
               (case spin (own_flag_differs state round) environment rounds of
                  Inl e \<Rightarrow> Some (Inl e)
                | Inr (rounds, environment) \<Rightarrow>
                    tournament_arrival environment rounds state (round + 1))))"

partial_function (option) tournament_wakeup ::
  "tournament_rounds \<Rightarrow> ck_barrier_tournament_state \<Rightarrow> int \<Rightarrow> (error + tournament_rounds) option" where
  "tournament_wakeup rounds state round =
     (case read_round rounds (unat (ts_vpid state)) round of
        Inl e \<Rightarrow> Some (Inl e)
      | Inr r \<Rightarrow>
          (case role r of
             BYE \<Rightarrow> tournament_wakeup rounds state (round - 1)
           | CHAMPION \<Rightarrow> tournament_wakeup rounds state (round - 1)
           | DROPOUT \<Rightarrow> Some (Inr rounds)
           | LOSER \<Rightarrow> tournament_wakeup rounds state (round - 1)
           | WINNER \<Rightarrow>
               (case signal_opponent state round rounds of
                  Inl e \<Rightarrow> Some (Inl e)
                | Inr rounds \<Rightarrow> tournament_wakeup rounds state (round - 1))))"

definition ck_barrier_tournament ::
  "tournament_rounds env \<Rightarrow> tournament_rounds \<Rightarrow> ck_barrier_tournament_state
   \<Rightarrow> (error + (tournament_rounds \<times> ck_barrier_tournament_state \<times> tournament_rounds env)) option" where
  "ck_barrier_tournament environment rounds state =
     (case tournament_arrival environment rounds state 1 of
        None \<Rightarrow> None
      | Some (Inl e) \<Rightarrow> Some (Inl e)
      | Some (Inr (rounds, environment, round)) \<Rightarrow>
          (case tournament_wakeup rounds state (round - 1) of
             None \<Rightarrow> None
           | Some (Inl e) \<Rightarrow> Some (Inl e)
           | Some (Inr rounds) \<Rightarrow>
               Some (Inr (rounds, state\<lparr>ts_sense := NOT (ts_sense state)\<rparr>, environment))))"

text \<open>
  The loop body splits into whether its row-pointer load is inside an array of \<open>nrows\<close>
  rows, and the entry it writes when it is.
\<close>

definition entry_ok ::
  "nat \<Rightarrow> u32 \<Rightarrow> u32 \<Rightarrow> u32 \<Rightarrow> u32 \<Rightarrow> ck_barrier_tournament_round \<Rightarrow> bool" where
  "entry_ok nrows nthr i twok twokm1 entry =
     (let r = round_init_role nthr i twok twokm1 entry
      in if role r = LOSER then unat (i - twokm1) < nrows
         else if role r = WINNER \<or> role r = CHAMPION then unat (i + twokm1) < nrows
         else True)"

definition entry_value ::
  "u32 \<Rightarrow> u32 \<Rightarrow> u32 \<Rightarrow> u32 \<Rightarrow> u32 \<Rightarrow> ck_barrier_tournament_round \<Rightarrow> ck_barrier_tournament_round" where
  "entry_value nthr i k twok twokm1 entry =
     (let r = round_init_role nthr i twok twokm1 entry
      in if role r = LOSER then r\<lparr>opponent := Flag (unat (i - twokm1)) (unat k)\<rparr>
         else if role r = WINNER \<or> role r = CHAMPION
           then r\<lparr>opponent := Flag (unat (i + twokm1)) (unat k)\<rparr>
         else r)"

lemma round_init_entry_result:
  "round_init_entry rounds nthr i k twok twokm1 entry =
     (if entry_ok (length rounds) nthr i twok twokm1 entry
      then Inr (entry_value nthr i k twok twokm1 entry) else Inl OutOfBounds)"
  by (simp add: round_init_entry_def entry_ok_def entry_value_def flag_address_def Let_def
      ebind_simps)

text \<open>
  What the two loops compute: the entry of thread \<open>i\<close> at round \<open>k \<ge> 1\<close> is the loop body
  with \<open>twok = 2^k\<close> and \<open>twokm1 = 2^(k-1)\<close>, applied to the entry as it was; the rows
  of the threads below \<open>nthr\<close> are rewritten up to the round \<open>hi\<close>, all others are kept.
  The call faults as soon as one of these entries does.
\<close>

definition entry_at ::
  "u32 \<Rightarrow> nat \<Rightarrow> nat \<Rightarrow> ck_barrier_tournament_round \<Rightarrow> ck_barrier_tournament_round" where
  "entry_at nthr i k entry = entry_value nthr (of_nat i) (of_nat k) (2 ^ k) (2 ^ (k - 1)) entry"

definition entry_ok_at :: "nat \<Rightarrow> u32 \<Rightarrow> nat \<Rightarrow> nat \<Rightarrow> ck_barrier_tournament_round \<Rightarrow> bool" where
  "entry_ok_at nrows nthr i k entry = entry_ok nrows nthr (of_nat i) (2 ^ k) (2 ^ (k - 1)) entry"

definition row_ok ::
  "nat \<Rightarrow> u32 \<Rightarrow> nat \<Rightarrow> nat \<Rightarrow> nat \<Rightarrow> ck_barrier_tournament_round list \<Rightarrow> bool" where
  "row_ok nrows nthr i lo hi row \<longleftrightarrow>
     (\<forall>k. lo \<le> k \<and> k < hi \<longrightarrow> entry_ok_at nrows nthr i k (row ! k))"

definition table_ok :: "u32 \<Rightarrow> nat \<Rightarrow> nat \<Rightarrow> tournament_rounds \<Rightarrow> bool" where
  "table_ok nthr hi lo rounds \<longleftrightarrow>
     (\<forall>i. lo \<le> i \<and> i < unat nthr \<longrightarrow> row_ok (length rounds) nthr i 1 hi (rounds ! i))"

definition row_after ::
  "u32 \<Rightarrow> nat \<Rightarrow> nat \<Rightarrow> nat \<Rightarrow> ck_barrier_tournament_round list \<Rightarrow> ck_barrier_tournament_round list" where
  "row_after nthr i lo hi row =
     map (\<lambda>k. if lo \<le> k \<and> k < hi then entry_at nthr i k (row ! k) else row ! k) [0..<length row]"

definition thread_row ::
  "u32 \<Rightarrow> nat \<Rightarrow> nat \<Rightarrow> ck_barrier_tournament_round list \<Rightarrow> ck_barrier_tournament_round list" where
  "thread_row nthr hi i row =
     row_after nthr i 1 hi (row[0 := (row ! 0)\<lparr>flag := 0, role := DROPOUT\<rparr>])"

definition table_after :: "u32 \<Rightarrow> nat \<Rightarrow> nat \<Rightarrow> tournament_rounds \<Rightarrow> tournament_rounds" where
  "table_after nthr hi lo rounds =
     map (\<lambda>i. if lo \<le> i \<and> i < unat nthr then thread_row nthr hi i (rounds ! i) else rounds ! i)
       [0..<length rounds]"

lemma length_row_after [simp]: "length (row_after nthr i lo hi row) = length row"
  by (simp add: row_after_def)

lemma length_thread_row [simp]: "length (thread_row nthr hi i row) = length row"
  by (simp add: thread_row_def)

lemma row_after_step:
  assumes "k < length row" and that: "k < hi"
  shows "row_after nthr i (Suc k) hi (row[k := entry_at nthr i k (row ! k)]) =
         row_after nthr i k hi row"
proof (rule nth_equalityI)
  show "length (row_after nthr i (Suc k) hi (row[k := entry_at nthr i k (row ! k)])) =
        length (row_after nthr i k hi row)" by simp
next
  fix y
  assume "y < length (row_after nthr i (Suc k) hi (row[k := entry_at nthr i k (row ! k)]))"
  then have y: "y < length row" by simp
  show "row_after nthr i (Suc k) hi (row[k := entry_at nthr i k (row ! k)]) ! y =
        row_after nthr i k hi row ! y"
  proof (cases "y = k")
    case True
    with y that show ?thesis by (simp add: row_after_def)
  next
    case False
    with y show ?thesis by (auto simp: row_after_def)
  qed
qed

lemma row_after_done: "hi \<le> lo \<Longrightarrow> row_after nthr i lo hi row = row"
  by (rule nth_equalityI) (auto simp: row_after_def)

lemma round_init_rounds_result:
  assumes "unat i < length rounds" and "unat size_n \<le> length (rounds ! unat i)"
    and "twok = 2 ^ unat k" and "twokm1 = 2 ^ (unat k - 1)"
  shows "round_init_rounds nthr size_n i k twok twokm1 rounds =
           (if row_ok (length rounds) nthr (unat i) (unat k) (unat size_n) (rounds ! unat i)
            then Inr (rounds[unat i :=
                   row_after nthr (unat i) (unat k) (unat size_n) (rounds ! unat i)])
            else Inl OutOfBounds)"
  using assms
proof (induction nthr size_n i k twok twokm1 rounds rule: round_init_rounds.induct)
  case (1 nthr size_n i k twok twokm1 rounds)
  let ?row = "rounds ! unat i"
  let ?n = "length rounds"
  show ?case
  proof (cases "k < size_n")
    case False
    then have fin: "unat size_n \<le> unat k" by (simp add: word_less_nat_alt)
    then have "row_after nthr (unat i) (unat k) (unat size_n) ?row = ?row"
      by (rule row_after_done)
    moreover from fin have "row_ok ?n nthr (unat i) (unat k) (unat size_n) ?row"
      by (auto simp: row_ok_def)
    ultimately show ?thesis
      using False by (subst round_init_rounds.simps) simp
  next
    case True
    then have lt: "unat k < unat size_n" by (simp add: word_less_nat_alt)
    with "1.prems" have inb: "in_rounds rounds (unat i) (unat k)"
      by (simp add: in_rounds_def)
    have suc: "unat (k + 1) = Suc (unat k)" using True by (rule word_succ)
    have ok_here: "entry_ok ?n nthr i twok twokm1 (?row ! unat k) =
        entry_ok_at ?n nthr (unat i) (unat k) (?row ! unat k)"
      using "1.prems"(3,4) by (simp add: entry_ok_at_def)
    show ?thesis
    proof (cases "entry_ok ?n nthr i twok twokm1 (?row ! unat k)")
      case False
      then have "\<not> row_ok ?n nthr (unat i) (unat k) (unat size_n) ?row"
        using lt unfolding ok_here row_ok_def by blast
      with True inb False show ?thesis
        by (subst round_init_rounds.simps) (simp add: round_init_entry_result)
    next
      case ok: True
      let ?e = "entry_value nthr i k twok twokm1 (?row ! unat k)"
      let ?rounds = "rounds[unat i := ?row[unat k := ?e]]"
      have entry: "round_init_entry rounds nthr i k twok twokm1 (?row ! unat k) = Inr ?e"
        using ok by (simp add: round_init_entry_result)
      have e: "?e = entry_at nthr (unat i) (unat k) (?row ! unat k)"
        using "1.prems"(3,4) by (simp add: entry_at_def)
      have later: "row_ok (length ?rounds) nthr (unat i) (unat (k + 1)) (unat size_n)
            (?rounds ! unat i) =
          row_ok ?n nthr (unat i) (unat k) (unat size_n) ?row"
      proof -
        have "entry_ok_at ?n nthr (unat i) y (?row[unat k := ?e] ! y) =
            entry_ok_at ?n nthr (unat i) y (?row ! y)" if "Suc (unat k) \<le> y" for y
          using that by simp
        then have "row_ok ?n nthr (unat i) (Suc (unat k)) (unat size_n) (?row[unat k := ?e]) =
            row_ok ?n nthr (unat i) (Suc (unat k)) (unat size_n) ?row"
          by (simp add: row_ok_def)
        also have "\<dots> = row_ok ?n nthr (unat i) (unat k) (unat size_n) ?row"
        proof
          assume above: "row_ok ?n nthr (unat i) (Suc (unat k)) (unat size_n) ?row"
          show "row_ok ?n nthr (unat i) (unat k) (unat size_n) ?row"
            unfolding row_ok_def
          proof (intro allI impI)
            fix y assume y: "unat k \<le> y \<and> y < unat size_n"
            show "entry_ok_at ?n nthr (unat i) y (?row ! y)"
            proof (cases "y = unat k")
              case True
              with ok ok_here show ?thesis by simp
            next
              case False
              with y above show ?thesis by (simp add: row_ok_def)
            qed
          qed
        next
          assume "row_ok ?n nthr (unat i) (unat k) (unat size_n) ?row"
          then show "row_ok ?n nthr (unat i) (Suc (unat k)) (unat size_n) ?row"
            by (simp add: row_ok_def)
        qed
        finally show ?thesis using "1.prems"(1) by (simp add: suc)
      qed
      have "round_init_rounds nthr size_n i (k + 1) (push_bit 1 twok) twok ?rounds =
          (if row_ok (length ?rounds) nthr (unat i) (unat (k + 1)) (unat size_n) (?rounds ! unat i)
           then Inr (?rounds[unat i :=
                  row_after nthr (unat i) (unat (k + 1)) (unat size_n) (?rounds ! unat i)])
           else Inl OutOfBounds)"
        using "1.prems"
        by (intro "1.IH" [OF True inb entry]) (simp_all add: suc push_bit_eq_mult)
      moreover have "?rounds[unat i :=
            row_after nthr (unat i) (unat (k + 1)) (unat size_n) (?rounds ! unat i)] =
          rounds[unat i := row_after nthr (unat i) (unat k) (unat size_n) ?row]"
        using "1.prems"(1,2) lt by (simp add: suc e row_after_step)
      ultimately have "round_init_rounds nthr size_n i (k + 1) (push_bit 1 twok) twok ?rounds =
          (if row_ok ?n nthr (unat i) (unat k) (unat size_n) ?row
           then Inr (rounds[unat i := row_after nthr (unat i) (unat k) (unat size_n) ?row])
           else Inl OutOfBounds)"
        by (simp only: later)
      then show ?thesis
        using True inb entry by (subst round_init_rounds.simps) simp
    qed
  qed
qed

lemma table_after_done: "unat nthr \<le> lo \<Longrightarrow> table_after nthr hi lo rounds = rounds"
  by (rule nth_equalityI) (auto simp: table_after_def)

lemma table_after_step:
  assumes "i < length rounds" and "i < unat nthr"
  shows "table_after nthr hi (Suc i) (rounds[i := thread_row nthr hi i (rounds ! i)]) =
         table_after nthr hi i rounds"
proof (rule nth_equalityI)
  show "length (table_after nthr hi (Suc i) (rounds[i := thread_row nthr hi i (rounds ! i)])) =
        length (table_after nthr hi i rounds)" by (simp add: table_after_def)
next
  fix x
  assume "x < length (table_after nthr hi (Suc i) (rounds[i := thread_row nthr hi i (rounds ! i)]))"
  then have x: "x < length rounds" by (simp add: table_after_def)
  show "table_after nthr hi (Suc i) (rounds[i := thread_row nthr hi i (rounds ! i)]) ! x =
        table_after nthr hi i rounds ! x"
  proof (cases "x = i")
    case True
    with x assms show ?thesis by (simp add: table_after_def)
  next
    case False
    with x show ?thesis by (auto simp: table_after_def)
  qed
qed

lemma round_init_threads_result:
  assumes "unat nthr \<le> length rounds"
    and "\<forall>x. unat i \<le> x \<and> x < unat nthr \<longrightarrow> unat size_n \<le> length (rounds ! x)"
    and "1 \<le> unat size_n"
  shows "round_init_threads nthr size_n i rounds =
           (if table_ok nthr (unat size_n) (unat i) rounds
            then Inr (table_after nthr (unat size_n) (unat i) rounds)
            else Inl OutOfBounds)"
  using assms
proof (induction nthr size_n i rounds rule: round_init_threads.induct)
  case (1 nthr size_n i rounds)
  let ?n = "length rounds"
  show ?case
  proof (cases "i < nthr")
    case False
    then have fin: "unat nthr \<le> unat i" by (simp add: word_less_nat_alt)
    then have "table_after nthr (unat size_n) (unat i) rounds = rounds"
      by (rule table_after_done)
    moreover from fin have "table_ok nthr (unat size_n) (unat i) rounds"
      by (auto simp: table_ok_def)
    ultimately show ?thesis
      using False by (subst round_init_threads.simps) simp
  next
    case True
    then have lt: "unat i < unat nthr" by (simp add: word_less_nat_alt)
    with "1.prems" have row: "unat i < length rounds" "unat size_n \<le> length (rounds ! unat i)"
      by simp_all
    with "1.prems"(3) have inb: "in_rounds rounds (unat i) 0"
      by (auto simp: in_rounds_def)
    have suc: "unat (i + 1) = Suc (unat i)" using True by (rule word_succ)
    let ?row = "rounds ! unat i"
    let ?first = "?row[0 := (?row ! 0)\<lparr>flag := 0, role := DROPOUT\<rparr>]"
    let ?r0 = "rounds[unat i := ?first]"
    let ?r1 = "rounds[unat i := thread_row nthr (unat size_n) (unat i) ?row]"
    have same: "row_ok ?n nthr (unat i) (Suc 0) (unat size_n) ?first =
        row_ok ?n nthr (unat i) (Suc 0) (unat size_n) ?row"
      by (simp add: row_ok_def)
    have inner: "round_init_rounds nthr size_n i 1 2 1 ?r0 =
        (if row_ok ?n nthr (unat i) 1 (unat size_n) ?row then Inr ?r1 else Inl OutOfBounds)"
      using row by (subst round_init_rounds_result) (simp_all add: thread_row_def same)
    show ?thesis
    proof (cases "row_ok ?n nthr (unat i) 1 (unat size_n) ?row")
      case False
      with lt have "\<not> table_ok nthr (unat size_n) (unat i) rounds"
        unfolding table_ok_def by blast
      with True inb inner False show ?thesis
        by (subst round_init_threads.simps) simp
    next
      case ok: True
      with inner have inner': "round_init_rounds nthr size_n i 1 2 1 ?r0 = Inr ?r1" by simp
      have later: "table_ok nthr (unat size_n) (unat (i + 1)) ?r1 =
          table_ok nthr (unat size_n) (unat i) rounds"
      proof -
        have "table_ok nthr (unat size_n) (Suc (unat i)) ?r1 =
            table_ok nthr (unat size_n) (Suc (unat i)) rounds"
          by (simp add: table_ok_def)
        also have "\<dots> = table_ok nthr (unat size_n) (unat i) rounds"
        proof
          assume above: "table_ok nthr (unat size_n) (Suc (unat i)) rounds"
          show "table_ok nthr (unat size_n) (unat i) rounds"
            unfolding table_ok_def
          proof (intro allI impI)
            fix x assume x: "unat i \<le> x \<and> x < unat nthr"
            show "row_ok ?n nthr x 1 (unat size_n) (rounds ! x)"
            proof (cases "x = unat i")
              case True
              with ok show ?thesis by simp
            next
              case False
              with x above show ?thesis by (simp add: table_ok_def)
            qed
          qed
        next
          assume "table_ok nthr (unat size_n) (unat i) rounds"
          then show "table_ok nthr (unat size_n) (Suc (unat i)) rounds"
            by (simp add: table_ok_def)
        qed
        finally show ?thesis by (simp add: suc)
      qed
      have "round_init_threads nthr size_n (i + 1) ?r1 =
          (if table_ok nthr (unat size_n) (unat (i + 1)) ?r1
           then Inr (table_after nthr (unat size_n) (unat (i + 1)) ?r1)
           else Inl OutOfBounds)"
        using "1.prems" row
        by (intro "1.IH" [OF True inb inner']) (simp_all add: suc nth_list_update)
      moreover have "table_after nthr (unat size_n) (unat (i + 1)) ?r1 =
          table_after nthr (unat size_n) (unat i) rounds"
        using row(1) lt by (simp add: suc table_after_step)
      ultimately have "round_init_threads nthr size_n (i + 1) ?r1 =
          (if table_ok nthr (unat size_n) (unat i) rounds
           then Inr (table_after nthr (unat size_n) (unat i) rounds)
           else Inl OutOfBounds)"
        by (simp only: later)
      then show ?thesis
        using True inb inner' by (subst round_init_threads.simps) simp
    qed
  qed
qed

text \<open>Powers of two below \<open>2^32\<close> as words.\<close>

lemma unat_pow2:
  assumes "k < 32"
  shows "unat (2 ^ k :: u32) = 2 ^ k"
proof -
  have "(2 ^ k :: u32) = of_nat (2 ^ k)" by simp
  then have "unat (2 ^ k :: u32) = 2 ^ k mod 2 ^ 32"
    by (simp only: unat_of_nat) simp
  moreover from assms have "(2::nat) ^ k < 2 ^ 32"
    by (intro power_strict_increasing) simp_all
  ultimately show ?thesis by simp
qed

text \<open>The number of rounds is at most 32, so the round counter and \<open>twok\<close> do not wrap.\<close>

lemma nthr_log_le: "unat (nthr_log nthr) \<le> 31"
proof (cases "unat nthr = 0 \<or> 2 ^ 31 < unat nthr")
  case True
  then show ?thesis by (simp add: nthr_log_overflow)
next
  case False
  then show ?thesis by (intro nthr_log_rounds(2)) simp_all
qed

lemma unat_tournament_size:
  "unat (ck_barrier_tournament_size nthr) = Suc (unat (nthr_log nthr))"
proof -
  have "unat (nthr_log nthr + 1) = unat (nthr_log nthr) + unat (1::u32)"
    using nthr_log_le [of nthr] by (intro unat_add_lem [THEN iffD1]) simp
  then show ?thesis
    by (simp add: ck_barrier_tournament_size_def nthr_log_def)
qed

text \<open>
  A round \<open>k \<ge> 1\<close> exists only for \<open>2 \<le> nthr \<le> 2^31\<close>; then \<open>2^(k-1) < nthr\<close>, and \<open>k\<close> is
  before the last round exactly when \<open>2^k < nthr\<close>.
\<close>

lemma later_round:
  assumes "1 \<le> k" and "k < unat (ck_barrier_tournament_size nthr)"
  shows "1 \<le> unat nthr" and "unat nthr \<le> 2 ^ 31" and "k \<le> 31"
    and "2 ^ (k - 1) < unat nthr"
    and "k < unat (ck_barrier_tournament_size nthr) - 1 \<longleftrightarrow> 2 ^ k < unat nthr"
proof -
  from assms have k: "k \<le> unat (nthr_log nthr)" "0 < unat (nthr_log nthr)"
    by (simp_all add: unat_tournament_size)
  then have "nthr_log nthr \<noteq> 0" by auto
  with nthr_log_overflow [of nthr] have "\<not> (unat nthr = 0 \<or> 2 ^ 31 < unat nthr)" by blast
  then show n: "1 \<le> unat nthr" "unat nthr \<le> 2 ^ 31" by simp_all
  from k nthr_log_le [of nthr] show "k \<le> 31" by simp
  from k assms(1) have "k - 1 < unat (nthr_log nthr)" by simp
  with nthr_log_rounds(1) [OF n] show "2 ^ (k - 1) < unat nthr" by simp
  from nthr_log_rounds(1) [OF n, of k]
  show "k < unat (ck_barrier_tournament_size nthr) - 1 \<longleftrightarrow> 2 ^ k < unat nthr"
    by (simp add: unat_tournament_size)
qed

text \<open>
  The role of thread \<open>i\<close> at round \<open>k\<close> in terms of natural numbers, given the role the
  entry held before.
\<close>

definition role_spec :: "nat \<Rightarrow> nat \<Rightarrow> nat \<Rightarrow> role \<Rightarrow> role" where
  "role_spec n i k before =
     (if i mod 2 ^ k = 0 then
        (if i + 2 ^ (k - 1) < n \<and> 2 ^ k < n then WINNER
         else if n \<le> i + 2 ^ (k - 1) then BYE
         else CHAMPION)
      else if i mod 2 ^ k = 2 ^ (k - 1) then LOSER
      else before)"

lemma round_init_role_at:
  assumes "i < unat nthr" and "1 \<le> k" and "k < unat (ck_barrier_tournament_size nthr)"
  shows "round_init_role nthr (of_nat i) (2 ^ k) (2 ^ (k - 1)) entry =
           entry\<lparr>flag := 0, role := role_spec (unat nthr) i k (role entry)\<rparr>"
    and "unat (of_nat i + 2 ^ (k - 1) :: u32) = i + 2 ^ (k - 1)"
    and "unat (of_nat k :: u32) = k"
proof -
  note facts = later_round [OF assms(2,3)]
  define j where "j = k - 1"
  define n where "n = unat nthr"
  define iw :: u32 where "iw = of_nat i"
  define kw :: u32 where "kw = of_nat k"
  define twok :: u32 where "twok = 2 ^ k"
  define twokm1 :: u32 where "twokm1 = 2 ^ j"
  define imod2k where "imod2k = iw AND (twok - 1)"
  have i32: "i < 2 ^ 31" using assms(1) facts(2) by simp
  then have ui: "unat iw = i" by (simp add: iw_def unat_of_nat take_bit_nat_eq_self)
  have uk: "unat kw = k"
    using facts(3) by (simp add: kw_def unat_of_nat take_bit_nat_eq_self)
  have utwok: "unat twok = 2 ^ k" unfolding twok_def using facts(3) by (intro unat_pow2) simp
  have utwokm1: "unat twokm1 = 2 ^ j" unfolding twokm1_def j_def
    using facts(3) by (intro unat_pow2) simp
  have jn: "2 ^ j < n" using facts(4) by (simp add: j_def n_def)
  have "(2::nat) ^ j < 2 ^ 31" using facts(2) jn by (simp add: n_def)
  with i32 have "i + 2 ^ j < 2 ^ 32" by simp
  then have "unat iw + unat twokm1 < 2 ^ LENGTH(32)"
    unfolding ui utwokm1 by simp
  then have "unat (iw + twokm1) = unat iw + unat twokm1"
    by (rule unat_add_lem [THEN iffD1])
  then have usum: "unat (iw + twokm1) = i + 2 ^ j"
    unfolding ui utwokm1 .
  have "imod2k = take_bit k iw"
    by (simp add: imod2k_def twok_def take_bit_eq_mask mask_eq_decr_exp)
  moreover have "unat (take_bit k iw) = take_bit k (unat iw)"
    by (rule unsigned_take_bit_eq)
  ultimately have umod: "unat imod2k = i mod 2 ^ k"
    by (simp only: ui take_bit_eq_mod)
  have mod0: "imod2k = 0 \<longleftrightarrow> i mod 2 ^ k = 0"
    by (simp only: unat_eq_0 [symmetric] umod)
  have modh: "imod2k = twokm1 \<longleftrightarrow> i mod 2 ^ k = 2 ^ j"
    by (simp only: word_unat_eq_iff umod utwokm1)
  have c1: "iw + twokm1 < nthr \<longleftrightarrow> i + 2 ^ j < n"
    by (simp only: word_less_nat_alt usum n_def)
  have c2: "twok < nthr \<longleftrightarrow> 2 ^ k < n"
    by (simp only: word_less_nat_alt utwok n_def)
  have c3: "nthr \<le> iw + twokm1 \<longleftrightarrow> n \<le> i + 2 ^ j"
    by (simp only: word_le_nat_alt usum n_def)
  have c4: "nthr \<le> twok \<longleftrightarrow> n \<le> 2 ^ k"
    by (simp only: word_le_nat_alt utwok n_def)
  have c5: "iw = 0 \<longleftrightarrow> i = 0"
    by (simp only: unat_eq_0 [symmetric] ui)
  define r1 where "r1 = (if i mod 2 ^ k = 0 then
        (if i + 2 ^ j < n \<and> 2 ^ k < n then WINNER
         else if n \<le> i + 2 ^ j then BYE else role entry) else role entry)"
  define r2 where "r2 = (if i mod 2 ^ k = 2 ^ j then LOSER
         else if i = 0 \<and> n \<le> 2 ^ k then CHAMPION else r1)"
  have expand: "round_init_role nthr iw twok twokm1 entry = entry\<lparr>flag := 0, role := r2\<rparr>"
    unfolding round_init_role_def Let_def imod2k_def [symmetric] mod0 modh c1 c2 c3 c4 c5
      r2_def r1_def
    by simp
  have zero: "i = 0" if "i mod 2 ^ k = 0" "n \<le> 2 ^ k"
  proof -
    from that(2) assms(1) have "i < 2 ^ k" by (simp add: n_def)
    with that(1) show ?thesis by simp
  qed
  have "r2 = role_spec n i k (role entry)"
  proof (cases "i mod 2 ^ k = 0")
    case True
    then have "i mod 2 ^ k \<noteq> 2 ^ j" by simp
    show ?thesis
    proof (cases "i + 2 ^ j < n \<and> 2 ^ k < n")
      case winner: True
      with True \<open>i mod 2 ^ k \<noteq> 2 ^ j\<close> show ?thesis
        by (simp add: r2_def r1_def role_spec_def j_def)
    next
      case False
      show ?thesis
      proof (cases "n \<le> i + 2 ^ j")
        case bye: True
        with jn have "i \<noteq> 0" by auto
        with True False bye \<open>i mod 2 ^ k \<noteq> 2 ^ j\<close> show ?thesis
          by (simp add: r2_def r1_def role_spec_def j_def)
      next
        case champion: False
        with False have "n \<le> 2 ^ k" by simp
        with True have "i = 0" by (intro zero)
        with True False champion \<open>n \<le> 2 ^ k\<close> show ?thesis
          by (simp add: r2_def r1_def role_spec_def j_def)
      qed
    qed
  next
    case False
    have "i \<noteq> 0"
    proof
      assume "i = 0"
      with False show False by simp
    qed
    with False show ?thesis
      by (simp add: r2_def r1_def role_spec_def j_def)
  qed
  then have "round_init_role nthr iw twok twokm1 entry =
      entry\<lparr>flag := 0, role := role_spec n i k (role entry)\<rparr>"
    by (simp only: expand)
  then show "round_init_role nthr (of_nat i) (2 ^ k) (2 ^ (k - 1)) entry =
           entry\<lparr>flag := 0, role := role_spec (unat nthr) i k (role entry)\<rparr>"
    unfolding iw_def twok_def twokm1_def j_def n_def .
  show "unat (of_nat i + 2 ^ (k - 1) :: u32) = i + 2 ^ (k - 1)"
    using usum unfolding iw_def twokm1_def j_def .
  show "unat (of_nat k :: u32) = k"
    using uk unfolding kw_def .
qed

lemma entry_at_fields:
  assumes "i < unat nthr" and "1 \<le> k" and "k < unat (ck_barrier_tournament_size nthr)"
  shows "role (entry_at nthr i k entry) = role_spec (unat nthr) i k (role entry)"
    and "flag (entry_at nthr i k entry) = 0"
    and "opponent (entry_at nthr i k entry) =
           (if role_spec (unat nthr) i k (role entry) = LOSER
              then Flag (unat (of_nat i - 2 ^ (k - 1) :: u32)) k
            else if role_spec (unat nthr) i k (role entry) = WINNER \<or>
                    role_spec (unat nthr) i k (role entry) = CHAMPION
              then Flag (i + 2 ^ (k - 1)) k
            else opponent entry)"
proof -
  define r where "r = role_spec (unat nthr) i k (role entry)"
  note at = round_init_role_at(1) [OF assms, of entry, folded r_def]
    round_init_role_at(2,3) [OF assms]
  have entry: "entry_at nthr i k entry =
      (if r = LOSER
         then entry\<lparr>flag := 0, role := r, opponent := Flag (unat (of_nat i - 2 ^ (k - 1) :: u32)) k\<rparr>
       else if r = WINNER \<or> r = CHAMPION
         then entry\<lparr>flag := 0, role := r, opponent := Flag (i + 2 ^ (k - 1)) k\<rparr>
       else entry\<lparr>flag := 0, role := r\<rparr>)"
    unfolding entry_at_def entry_value_def at Let_def by simp
  show "role (entry_at nthr i k entry) = role_spec (unat nthr) i k (role entry)"
    unfolding r_def [symmetric] by (simp add: entry)
  show "flag (entry_at nthr i k entry) = 0"
    by (simp add: entry)
  show "opponent (entry_at nthr i k entry) =
           (if role_spec (unat nthr) i k (role entry) = LOSER
              then Flag (unat (of_nat i - 2 ^ (k - 1) :: u32)) k
            else if role_spec (unat nthr) i k (role entry) = WINNER \<or>
                    role_spec (unat nthr) i k (role entry) = CHAMPION
              then Flag (i + 2 ^ (k - 1)) k
            else opponent entry)"
    unfolding r_def [symmetric] by (simp add: entry)
qed

lemma unat_sub_pow2:
  assumes "i < 2 ^ 32" and "j < 32" and "2 ^ j \<le> i"
  shows "unat (of_nat i - 2 ^ j :: u32) = i - 2 ^ j"
proof -
  have ui: "unat (of_nat i :: u32) = i"
    using assms(1) by (simp add: unat_of_nat take_bit_nat_eq_self)
  have uj: "unat (2 ^ j :: u32) = 2 ^ j" using assms(2) by (rule unat_pow2)
  have "(2 ^ j :: u32) \<le> of_nat i"
    using assms(3) by (simp only: word_le_nat_alt ui uj)
  then have "unat (of_nat i - 2 ^ j :: u32) = unat (of_nat i :: u32) - unat (2 ^ j :: u32)"
    by (rule unat_sub)
  then show ?thesis by (simp only: ui uj)
qed

text \<open>
  The row pointer that the loop body loads at thread \<open>i\<close> and round \<open>k\<close>, by the role the
  entry has when the opponent is chosen: \<open>rounds[i - 2^(k-1)]\<close> for a LOSER, the
  subtraction being that of \<open>unsigned int\<close>, and \<open>rounds[i + 2^(k-1)]\<close> for a WINNER or a
  CHAMPION. The load is in range when that index is below the number of rows.
\<close>

definition load_in_range :: "nat \<Rightarrow> nat \<Rightarrow> nat \<Rightarrow> role \<Rightarrow> bool" where
  "load_in_range nrows i k r =
     (if r = LOSER then unat (of_nat i - 2 ^ (k - 1) :: u32) < nrows
      else if r = WINNER \<or> r = CHAMPION then i + 2 ^ (k - 1) < nrows
      else True)"

text \<open>
  An entry that is given a role directs the load into the first \<open>nthr\<close> rows. An entry
  that is given none (\<open>i mod 2^k\<close> neither 0 nor \<open>2^(k-1)\<close>) directs it by the role it
  held before the call.
\<close>

lemma entry_ok_at_iff:
  assumes "i < unat nthr" and "1 \<le> k" and "k < unat (ck_barrier_tournament_size nthr)"
    and "unat nthr \<le> nrows"
  shows "entry_ok_at nrows nthr i k entry \<longleftrightarrow>
           (i mod 2 ^ k \<noteq> 0 \<and> i mod 2 ^ k \<noteq> 2 ^ (k - 1) \<longrightarrow>
              load_in_range nrows i k (role entry))"
proof -
  note facts = later_round [OF assms(2,3)]
  define r where "r = role_spec (unat nthr) i k (role entry)"
  note at = round_init_role_at(1) [OF assms(1,2,3), of entry, folded r_def]
    round_init_role_at(2,3) [OF assms(1,2,3)]
  have ok: "entry_ok_at nrows nthr i k entry = load_in_range nrows i k r"
    unfolding entry_ok_at_def entry_ok_def at Let_def load_in_range_def by simp
  show ?thesis
  proof (cases "i mod 2 ^ k = 0")
    case True
    then have "i mod 2 ^ k \<noteq> 2 ^ (k - 1)" by simp
    have "load_in_range nrows i k r"
      using True assms(4) by (auto simp: load_in_range_def r_def role_spec_def)
    with True show ?thesis by (simp add: ok)
  next
    case False
    show ?thesis
    proof (cases "i mod 2 ^ k = 2 ^ (k - 1)")
      case True
      with False have r: "r = LOSER" by (simp add: r_def role_spec_def)
      have "i mod 2 ^ k \<le> i" by simp
      with True have le: "2 ^ (k - 1) \<le> i" by simp
      from assms(1) facts(2) have "i < 2 ^ 32" by simp
      moreover from facts(3) have "k - 1 < 32" by simp
      ultimately have "unat (of_nat i - 2 ^ (k - 1) :: u32) = i - 2 ^ (k - 1)"
        using le by (rule unat_sub_pow2)
      with assms(1,4) have "load_in_range nrows i k r"
        by (simp add: load_in_range_def r)
      with True show ?thesis by (simp add: ok)
    next
      case neither: False
      with False have "r = role entry" by (simp add: r_def role_spec_def)
      with False neither show ?thesis by (simp add: ok)
    qed
  qed
qed

text \<open>
  The caller's side of the contract: \<open>nthr\<close> rows of at least
  \<open>ck_barrier_tournament_size(nthr)\<close> slots each.
\<close>

definition rounds_allocated :: "tournament_rounds \<Rightarrow> u32 \<Rightarrow> bool" where
  "rounds_allocated rounds nthr \<longleftrightarrow>
     unat nthr \<le> length rounds \<and>
     (\<forall>i < unat nthr. unat (ck_barrier_tournament_size nthr) \<le> length (rounds ! i))"

text \<open>
  The call returns exactly when every entry that is given no role directs its load into
  the array of rows.
\<close>

definition stale_roles_in_range :: "tournament_rounds \<Rightarrow> u32 \<Rightarrow> bool" where
  "stale_roles_in_range rounds nthr \<longleftrightarrow>
     (\<forall>i \<in> set [0..<unat nthr]. \<forall>k \<in> set [1..<unat (ck_barrier_tournament_size nthr)].
        i mod 2 ^ k \<noteq> 0 \<and> i mod 2 ^ k \<noteq> 2 ^ (k - 1) \<longrightarrow>
        load_in_range (length rounds) i k (role (rounds ! i ! k)))"

lemma stale_roles_in_rangeD:
  assumes "stale_roles_in_range rounds nthr"
    and "i < unat nthr" and "1 \<le> k" and "k < unat (ck_barrier_tournament_size nthr)"
    and "i mod 2 ^ k \<noteq> 0" and "i mod 2 ^ k \<noteq> 2 ^ (k - 1)"
  shows "load_in_range (length rounds) i k (role (rounds ! i ! k))"
  using assms by (simp add: stale_roles_in_range_def)

lemma table_ok_iff:
  assumes "rounds_allocated rounds nthr"
  shows "table_ok nthr (unat (ck_barrier_tournament_size nthr)) 0 rounds \<longleftrightarrow>
           stale_roles_in_range rounds nthr"
proof -
  let ?size = "unat (ck_barrier_tournament_size nthr)"
  from assms have len: "unat nthr \<le> length rounds" by (simp add: rounds_allocated_def)
  have entry: "entry_ok_at (length rounds) nthr i k (rounds ! i ! k) \<longleftrightarrow>
      (i mod 2 ^ k \<noteq> 0 \<and> i mod 2 ^ k \<noteq> 2 ^ (k - 1) \<longrightarrow>
         load_in_range (length rounds) i k (role (rounds ! i ! k)))"
    if "i < unat nthr" "1 \<le> k" "k < ?size" for i k
    using that len by (rule entry_ok_at_iff)
  show ?thesis
  proof
    assume ok: "table_ok nthr ?size 0 rounds"
    show "stale_roles_in_range rounds nthr"
      unfolding stale_roles_in_range_def
    proof (intro ballI)
      fix i k
      assume "i \<in> set [0..<unat nthr]" "k \<in> set [1..<?size]"
      then have ik: "i < unat nthr" "1 \<le> k" "k < ?size" by simp_all
      with ok have "entry_ok_at (length rounds) nthr i k (rounds ! i ! k)"
        by (auto simp: table_ok_def row_ok_def)
      then show "i mod 2 ^ k \<noteq> 0 \<and> i mod 2 ^ k \<noteq> 2 ^ (k - 1) \<longrightarrow>
          load_in_range (length rounds) i k (role (rounds ! i ! k))"
        by (simp only: entry [OF ik])
    qed
  next
    assume stale: "stale_roles_in_range rounds nthr"
    have "entry_ok_at (length rounds) nthr i k (rounds ! i ! k)"
      if ik: "i < unat nthr" "1 \<le> k" "k < ?size" for i k
    proof -
      from ik have "i \<in> set [0..<unat nthr]" "k \<in> set [1..<?size]" by simp_all
      with stale have "i mod 2 ^ k \<noteq> 0 \<and> i mod 2 ^ k \<noteq> 2 ^ (k - 1) \<longrightarrow>
          load_in_range (length rounds) i k (role (rounds ! i ! k))"
        unfolding stale_roles_in_range_def by blast
      then show ?thesis by (simp only: entry [OF ik])
    qed
    then show "table_ok nthr ?size 0 rounds"
      by (simp add: table_ok_def row_ok_def)
  qed
qed

lemma round_init_table:
  assumes "rounds_allocated rounds nthr"
  shows "ck_barrier_tournament_round_init rounds nthr =
           (if stale_roles_in_range rounds nthr
            then Inr (table_after nthr (unat (ck_barrier_tournament_size nthr)) 0 rounds)
            else Inl OutOfBounds)"
proof -
  let ?size = "ck_barrier_tournament_size nthr"
  have "round_init_threads nthr ?size 0 rounds =
      (if table_ok nthr (unat ?size) (unat (0::u32)) rounds
       then Inr (table_after nthr (unat ?size) (unat (0::u32)) rounds)
       else Inl OutOfBounds)"
    using assms
    by (intro round_init_threads_result) (simp_all add: rounds_allocated_def unat_tournament_size)
  then have "round_init_threads nthr ?size 0 rounds =
      (if table_ok nthr (unat ?size) 0 rounds
       then Inr (table_after nthr (unat ?size) 0 rounds)
       else Inl OutOfBounds)"
    by simp
  then show ?thesis
    unfolding table_ok_iff [OF assms] by (simp add: ck_barrier_tournament_round_init_def)
qed

lemma table_after_entry:
  assumes "rounds_allocated rounds nthr" and "i < unat nthr"
    and "k < unat (ck_barrier_tournament_size nthr)"
  shows "table_after nthr (unat (ck_barrier_tournament_size nthr)) 0 rounds ! i ! k =
           (if k = 0 then (rounds ! i ! 0)\<lparr>flag := 0, role := DROPOUT\<rparr>
            else entry_at nthr i k (rounds ! i ! k))"
proof -
  from assms have "i < length rounds" "k < length (rounds ! i)"
    by (auto simp: rounds_allocated_def)
  with assms(2,3) show ?thesis
    by (auto simp: table_after_def thread_row_def row_after_def)
qed

lemma tournament_entry:
  assumes "rounds_allocated rounds nthr" and "i < unat nthr"
    and "1 \<le> k" and "k < unat (ck_barrier_tournament_size nthr)"
  defines "after \<equiv> table_after nthr (unat (ck_barrier_tournament_size nthr)) 0 rounds ! i ! k"
  shows "role after = role_spec (unat nthr) i k (role (rounds ! i ! k))"
    and "flag after = 0"
    and "role after = LOSER \<Longrightarrow> 2 ^ (k - 1) \<le> i \<Longrightarrow> opponent after = Flag (i - 2 ^ (k - 1)) k"
    and "role after = WINNER \<or> role after = CHAMPION \<Longrightarrow> opponent after = Flag (i + 2 ^ (k - 1)) k"
    and "role after = BYE \<or> role after = DROPOUT \<Longrightarrow> opponent after = opponent (rounds ! i ! k)"
proof -
  have after: "after = entry_at nthr i k (rounds ! i ! k)"
    using assms(3) unfolding after_def table_after_entry [OF assms(1,2,4)] by simp
  note fields = entry_at_fields [OF assms(2,3,4), of "rounds ! i ! k", folded after]
  note facts = later_round [OF assms(3,4)]
  show "role after = role_spec (unat nthr) i k (role (rounds ! i ! k))" by (rule fields(1))
  show "flag after = 0" by (rule fields(2))
  show "opponent after = Flag (i - 2 ^ (k - 1)) k" if "role after = LOSER" "2 ^ (k - 1) \<le> i"
  proof -
    from assms(2) facts(2) have "i < 2 ^ 32" by simp
    moreover from facts(3) have "k - 1 < 32" by simp
    ultimately have "unat (of_nat i - 2 ^ (k - 1) :: u32) = i - 2 ^ (k - 1)"
      using that(2) by (rule unat_sub_pow2)
    with that(1) fields(1,3) show ?thesis by simp
  qed
  show "opponent after = Flag (i + 2 ^ (k - 1)) k" if "role after = WINNER \<or> role after = CHAMPION"
    using that fields(1,3) by auto
  show "opponent after = opponent (rounds ! i ! k)" if "role after = BYE \<or> role after = DROPOUT"
    using that fields(1,3) by auto
qed


subsection \<open>The role table\<close>

text \<open>An entry as the caller may hand it over, before initialisation.\<close>

definition blank_round :: ck_barrier_tournament_round where
  "blank_round = \<lparr>role = BYE, opponent = Flag 99 99, flag = 7\<rparr>"

text \<open>
  The table for five threads whose entries are blank, but for the round-2 entry of
  thread 1, which holds the role \<open>r\<close>. The call gives this entry no role, \<open>1 mod 4\<close>
  being neither 0 nor 2.
\<close>

definition stale_table :: "role \<Rightarrow> tournament_rounds" where
  "stale_table r =
     (replicate 5 (replicate 4 blank_round))
       [1 := (replicate 4 blank_round)[2 := blank_round\<lparr>role := r\<rparr>]]"

lemma tournament_sizes:
  "ck_barrier_tournament_size 1 = 1" "ck_barrier_tournament_size 2 = 2"
  "ck_barrier_tournament_size 3 = 3" "ck_barrier_tournament_size 5 = 4"
  by code_simp+

text \<open>Tables of the declared size for 5 and for 3 threads.\<close>

lemma blank_allocated:
  "rounds_allocated (replicate 5 (replicate 4 entry)) 5"
  "rounds_allocated (replicate 3 (replicate 3 entry)) 3"
  by (simp_all add: rounds_allocated_def tournament_sizes)

lemma blank_in_range:
  "stale_roles_in_range (replicate 5 (replicate 4 blank_round)) 5"
  "stale_roles_in_range (replicate 3 (replicate 3 blank_round)) 3"
  by (simp_all add: stale_roles_in_range_def load_in_range_def blank_round_def tournament_sizes)

lemma stale_table_allocated: "rounds_allocated (stale_table r) 5"
  by (simp add: rounds_allocated_def stale_table_def tournament_sizes nth_list_update)

lemma stale_table_entry:
  "stale_table r ! 1 ! 2 = blank_round\<lparr>role := r\<rparr>"
  "stale_table r ! Suc 0 ! 2 = blank_round\<lparr>role := r\<rparr>"
  by (simp_all add: stale_table_def)

text \<open>
  A WINNER or a CHAMPION left in that entry directs the load to \<open>rounds[3]\<close>, one of the
  five rows.
\<close>

lemma stale_table_in_range:
  "stale_roles_in_range (stale_table WINNER) 5"
  "stale_roles_in_range (stale_table CHAMPION) 5"
  by code_simp+

text \<open>
  With three threads the same entry directs the load outside the three rows: to
  \<open>rounds[3]\<close> for a WINNER left there, to \<open>rounds[0xFFFFFFFF]\<close> for a LOSER.
\<close>

lemma round_init_stale_fault:
  "ck_barrier_tournament_round_init (replicate 3 (replicate 3 (blank_round\<lparr>role := WINNER\<rparr>))) 3 =
     Inl OutOfBounds"
  "ck_barrier_tournament_round_init (replicate 3 (replicate 3 (blank_round\<lparr>role := LOSER\<rparr>))) 3 =
     Inl OutOfBounds"
proof -
  have "\<not> stale_roles_in_range (replicate 3 (replicate 3 (blank_round\<lparr>role := WINNER\<rparr>))) 3"
  proof
    assume "stale_roles_in_range (replicate 3 (replicate 3 (blank_round\<lparr>role := WINNER\<rparr>))) 3"
    from stale_roles_in_rangeD [OF this, of 1 2] have "load_in_range 3 1 2 WINNER"
      by (simp add: tournament_sizes)
    then show False by (simp add: load_in_range_def)
  qed
  then show "ck_barrier_tournament_round_init
      (replicate 3 (replicate 3 (blank_round\<lparr>role := WINNER\<rparr>))) 3 = Inl OutOfBounds"
    by (simp only: round_init_table [OF blank_allocated(2)] if_False)
  have "\<not> stale_roles_in_range (replicate 3 (replicate 3 (blank_round\<lparr>role := LOSER\<rparr>))) 3"
  proof
    assume "stale_roles_in_range (replicate 3 (replicate 3 (blank_round\<lparr>role := LOSER\<rparr>))) 3"
    from stale_roles_in_rangeD [OF this, of 1 2] have "load_in_range 3 1 2 LOSER"
      by (simp add: tournament_sizes)
    then show False
      by (simp add: load_in_range_def unsigned_minus_1_eq_mask mask_eq_exp_minus_1)
  qed
  then show "ck_barrier_tournament_round_init
      (replicate 3 (replicate 3 (blank_round\<lparr>role := LOSER\<rparr>))) 3 = Inl OutOfBounds"
    by (simp only: round_init_table [OF blank_allocated(2)] if_False)
qed

text \<open>
  Above \<open>2^31\<close> threads the size query gives one round, so that the call writes the
  round-0 entries only.
\<close>

lemma round_init_overflow:
  assumes "2 ^ 31 < unat nthr" and "rounds = replicate (unat nthr) [entry]"
  shows "ck_barrier_tournament_size nthr = 1"
    and "\<not> isl (ck_barrier_tournament_round_init rounds nthr)"
    and "role (projr (ck_barrier_tournament_round_init rounds nthr) ! 0 ! 0) = DROPOUT"
proof -
  from assms(1) have "nthr_log nthr = 0" by (intro nthr_log_overflow) simp
  then show size: "ck_barrier_tournament_size nthr = 1"
    by (simp add: ck_barrier_tournament_size_def nthr_log_def)
  have allocated: "rounds_allocated rounds nthr"
    by (simp add: rounds_allocated_def assms(2) size)
  have "stale_roles_in_range rounds nthr"
    by (simp add: stale_roles_in_range_def size)
  then have init: "ck_barrier_tournament_round_init rounds nthr =
      Inr (table_after nthr (unat (ck_barrier_tournament_size nthr)) 0 rounds)"
    by (simp only: round_init_table [OF allocated] if_True)
  then show "\<not> isl (ck_barrier_tournament_round_init rounds nthr)" by simp
  from assms(1) have "0 < unat nthr" by simp
  moreover have "0 < unat (ck_barrier_tournament_size nthr)" by (simp add: size)
  ultimately have "table_after nthr (unat (ck_barrier_tournament_size nthr)) 0 rounds ! 0 ! 0 =
      (rounds ! 0 ! 0)\<lparr>flag := 0, role := DROPOUT\<rparr>"
    using table_after_entry [OF allocated, of 0 0] by simp
  then show "role (projr (ck_barrier_tournament_round_init rounds nthr) ! 0 ! 0) = DROPOUT"
    by (simp add: init)
qed

text \<open>
  Claim C3. On a table of at least \<open>N\<close> rows of \<open>size(N)\<close> slots, with \<open>N \<ge> 1\<close>,
  \<open>ck_barrier_tournament_round_init(rounds, N)\<close> returns when every entry that it gives
  no role to directs its row-pointer load into the table, and faults on that load
  otherwise. When it returns, for every thread \<open>i < N\<close> and every round \<open>k\<close> with
  \<open>1 \<le> k < size(N)\<close>, writing \<open>twok = 2^k\<close> and \<open>twokm1 = 2^(k-1)\<close>: if \<open>i mod twok = 0\<close>
  the role is WINNER when \<open>i + twokm1 < N\<close> and \<open>twok < N\<close>, and BYE when
  \<open>i + twokm1 \<ge> N\<close>; if \<open>i mod twok = twokm1\<close> the role is LOSER and the opponent is
  \<open>&rounds[i - twokm1][k].flag\<close>; an entry whose role is WINNER or CHAMPION has the
  opponent \<open>&rounds[i + twokm1][k].flag\<close>; and every flag of the table, round 0
  included, is 0.
\<close>

theorem tournament_round_init_roles:
  assumes "1 \<le> unat nthr" and "rounds_allocated rounds nthr"
  shows "if stale_roles_in_range rounds nthr then
    (\<exists>rounds'. ck_barrier_tournament_round_init rounds nthr = Inr rounds' \<and>
      (\<forall>i k. i < unat nthr \<and> 1 \<le> k \<and> k < unat (ck_barrier_tournament_size nthr) \<longrightarrow>
         (i mod 2 ^ k = 0 \<and> i + 2 ^ (k - 1) < unat nthr \<and> 2 ^ k < unat nthr \<longrightarrow>
            role (rounds' ! i ! k) = WINNER) \<and>
         (i mod 2 ^ k = 0 \<and> unat nthr \<le> i + 2 ^ (k - 1) \<longrightarrow>
            role (rounds' ! i ! k) = BYE) \<and>
         (i mod 2 ^ k = 2 ^ (k - 1) \<longrightarrow>
            role (rounds' ! i ! k) = LOSER \<and>
            opponent (rounds' ! i ! k) = Flag (i - 2 ^ (k - 1)) k) \<and>
         (role (rounds' ! i ! k) = WINNER \<or> role (rounds' ! i ! k) = CHAMPION \<longrightarrow>
            opponent (rounds' ! i ! k) = Flag (i + 2 ^ (k - 1)) k)) \<and>
      (\<forall>i k. i < unat nthr \<and> k < unat (ck_barrier_tournament_size nthr) \<longrightarrow>
         flag (rounds' ! i ! k) = 0))
    else ck_barrier_tournament_round_init rounds nthr = Inl OutOfBounds"
proof (cases "stale_roles_in_range rounds nthr")
  case False
  then have "ck_barrier_tournament_round_init rounds nthr = Inl OutOfBounds"
    by (simp only: round_init_table [OF assms(2)] if_False)
  then show ?thesis unfolding if_not_P [OF False] .
next
  case True
  let ?size = "unat (ck_barrier_tournament_size nthr)"
  let ?after = "table_after nthr ?size 0 rounds"
  have later: "(i mod 2 ^ k = 0 \<and> i + 2 ^ (k - 1) < unat nthr \<and> 2 ^ k < unat nthr \<longrightarrow>
          role (?after ! i ! k) = WINNER) \<and>
       (i mod 2 ^ k = 0 \<and> unat nthr \<le> i + 2 ^ (k - 1) \<longrightarrow>
          role (?after ! i ! k) = BYE) \<and>
       (i mod 2 ^ k = 2 ^ (k - 1) \<longrightarrow>
          role (?after ! i ! k) = LOSER \<and>
          opponent (?after ! i ! k) = Flag (i - 2 ^ (k - 1)) k) \<and>
       (role (?after ! i ! k) = WINNER \<or> role (?after ! i ! k) = CHAMPION \<longrightarrow>
          opponent (?after ! i ! k) = Flag (i + 2 ^ (k - 1)) k)"
    if "i < unat nthr" "1 \<le> k" "k < ?size" for i k
  proof -
    note entry = tournament_entry [OF assms(2) that]
    have loser: "role (?after ! i ! k) = LOSER \<and>
          opponent (?after ! i ! k) = Flag (i - 2 ^ (k - 1)) k" if half: "i mod 2 ^ k = 2 ^ (k - 1)"
    proof -
      from half have "i mod 2 ^ k \<noteq> 0" by simp
      with half have r: "role (?after ! i ! k) = LOSER"
        by (simp add: entry(1) role_spec_def)
      have "i mod 2 ^ k \<le> i" by simp
      with half have "2 ^ (k - 1) \<le> i" by simp
      with r entry(3) show ?thesis by simp
    qed
    show ?thesis
      using loser entry(4) by (auto simp: entry(1) role_spec_def)
  qed
  have flags: "flag (?after ! i ! k) = 0" if "i < unat nthr" "k < ?size" for i k
  proof (cases "k = 0")
    case True
    with that show ?thesis by (simp add: table_after_entry [OF assms(2)])
  next
    case False
    with that tournament_entry(2) [OF assms(2), of i k] show ?thesis by simp
  qed
  have "\<exists>rounds'. ck_barrier_tournament_round_init rounds nthr = Inr rounds' \<and>
      (\<forall>i k. i < unat nthr \<and> 1 \<le> k \<and> k < ?size \<longrightarrow>
         (i mod 2 ^ k = 0 \<and> i + 2 ^ (k - 1) < unat nthr \<and> 2 ^ k < unat nthr \<longrightarrow>
            role (rounds' ! i ! k) = WINNER) \<and>
         (i mod 2 ^ k = 0 \<and> unat nthr \<le> i + 2 ^ (k - 1) \<longrightarrow>
            role (rounds' ! i ! k) = BYE) \<and>
         (i mod 2 ^ k = 2 ^ (k - 1) \<longrightarrow>
            role (rounds' ! i ! k) = LOSER \<and>
            opponent (rounds' ! i ! k) = Flag (i - 2 ^ (k - 1)) k) \<and>
         (role (rounds' ! i ! k) = WINNER \<or> role (rounds' ! i ! k) = CHAMPION \<longrightarrow>
            opponent (rounds' ! i ! k) = Flag (i + 2 ^ (k - 1)) k)) \<and>
      (\<forall>i k. i < unat nthr \<and> k < ?size \<longrightarrow> flag (rounds' ! i ! k) = 0)"
  proof (intro exI conjI)
    from True show "ck_barrier_tournament_round_init rounds nthr = Inr ?after"
      by (simp only: round_init_table [OF assms(2)] if_True)
    show "\<forall>i k. i < unat nthr \<and> k < ?size \<longrightarrow> flag (?after ! i ! k) = 0"
      using flags by simp
    show "\<forall>i k. i < unat nthr \<and> 1 \<le> k \<and> k < ?size \<longrightarrow>
       (i mod 2 ^ k = 0 \<and> i + 2 ^ (k - 1) < unat nthr \<and> 2 ^ k < unat nthr \<longrightarrow>
          role (?after ! i ! k) = WINNER) \<and>
       (i mod 2 ^ k = 0 \<and> unat nthr \<le> i + 2 ^ (k - 1) \<longrightarrow>
          role (?after ! i ! k) = BYE) \<and>
       (i mod 2 ^ k = 2 ^ (k - 1) \<longrightarrow>
          role (?after ! i ! k) = LOSER \<and>
          opponent (?after ! i ! k) = Flag (i - 2 ^ (k - 1)) k) \<and>
       (role (?after ! i ! k) = WINNER \<or> role (?after ! i ! k) = CHAMPION \<longrightarrow>
          opponent (?after ! i ! k) = Flag (i + 2 ^ (k - 1)) k)"
    proof (intro allI impI)
      fix i k
      assume "i < unat nthr \<and> 1 \<le> k \<and> k < ?size"
      then have "i < unat nthr" "1 \<le> k" "k < ?size" by simp_all
      then show "(i mod 2 ^ k = 0 \<and> i + 2 ^ (k - 1) < unat nthr \<and> 2 ^ k < unat nthr \<longrightarrow>
          role (?after ! i ! k) = WINNER) \<and>
       (i mod 2 ^ k = 0 \<and> unat nthr \<le> i + 2 ^ (k - 1) \<longrightarrow>
          role (?after ! i ! k) = BYE) \<and>
       (i mod 2 ^ k = 2 ^ (k - 1) \<longrightarrow>
          role (?after ! i ! k) = LOSER \<and>
          opponent (?after ! i ! k) = Flag (i - 2 ^ (k - 1)) k) \<and>
       (role (?after ! i ! k) = WINNER \<or> role (?after ! i ! k) = CHAMPION \<longrightarrow>
          opponent (?after ! i ! k) = Flag (i + 2 ^ (k - 1)) k)"
        by (rule later)
    qed
  qed
  then show ?thesis unfolding if_P [OF True] .
qed

text \<open>
  Claim C10, as amended. On a table of at least \<open>N\<close> rows of \<open>size(N)\<close> slots,
  \<open>ck_barrier_tournament_round_init(rounds, N)\<close> returns when every entry that it gives
  no role to directs its row-pointer load into the table, and faults on that load
  otherwise. When it returns, it has written \<open>rounds[i][k].flag = 0\<close> for every thread
  \<open>i < N\<close> and every round \<open>k < size(N)\<close>. For every \<open>k \<ge> 1\<close> such that \<open>i mod 2^k\<close> is
  neither 0 nor \<open>2^(k-1)\<close> it never writes \<open>rounds[i][k].role\<close>, which keeps the value it
  held before the call; and \<open>rounds[i][k].opponent\<close> keeps its value when that role is
  BYE or DROPOUT.
\<close>

theorem tournament_round_init_frame:
  assumes "rounds_allocated rounds nthr"
  shows "if stale_roles_in_range rounds nthr then
    (\<exists>rounds'. ck_barrier_tournament_round_init rounds nthr = Inr rounds' \<and>
      (\<forall>i k. i < unat nthr \<and> k < unat (ck_barrier_tournament_size nthr) \<longrightarrow>
         flag (rounds' ! i ! k) = 0) \<and>
      (\<forall>i k. i < unat nthr \<and> 1 \<le> k \<and> k < unat (ck_barrier_tournament_size nthr) \<and>
             i mod 2 ^ k \<noteq> 0 \<and> i mod 2 ^ k \<noteq> 2 ^ (k - 1) \<longrightarrow>
         role (rounds' ! i ! k) = role (rounds ! i ! k) \<and>
         (role (rounds ! i ! k) = BYE \<or> role (rounds ! i ! k) = DROPOUT \<longrightarrow>
            opponent (rounds' ! i ! k) = opponent (rounds ! i ! k))))
    else ck_barrier_tournament_round_init rounds nthr = Inl OutOfBounds"
proof (cases "stale_roles_in_range rounds nthr")
  case False
  then have "ck_barrier_tournament_round_init rounds nthr = Inl OutOfBounds"
    by (simp only: round_init_table [OF assms] if_False)
  then show ?thesis unfolding if_not_P [OF False] .
next
  case True
  let ?size = "unat (ck_barrier_tournament_size nthr)"
  let ?after = "table_after nthr ?size 0 rounds"
  have flags: "flag (?after ! i ! k) = 0" if "i < unat nthr" "k < ?size" for i k
  proof (cases "k = 0")
    case True
    with that show ?thesis by (simp add: table_after_entry [OF assms])
  next
    case False
    with that tournament_entry(2) [OF assms, of i k] show ?thesis by simp
  qed
  have kept: "role (?after ! i ! k) = role (rounds ! i ! k) \<and>
       (role (rounds ! i ! k) = BYE \<or> role (rounds ! i ! k) = DROPOUT \<longrightarrow>
          opponent (?after ! i ! k) = opponent (rounds ! i ! k))"
    if "i < unat nthr" "1 \<le> k" "k < ?size" "i mod 2 ^ k \<noteq> 0" "i mod 2 ^ k \<noteq> 2 ^ (k - 1)"
    for i k
  proof -
    note entry = tournament_entry [OF assms that(1,2,3)]
    from that(4,5) have "role (?after ! i ! k) = role (rounds ! i ! k)"
      by (simp add: entry(1) role_spec_def)
    with entry(5) show ?thesis by simp
  qed
  have "\<exists>rounds'. ck_barrier_tournament_round_init rounds nthr = Inr rounds' \<and>
      (\<forall>i k. i < unat nthr \<and> k < ?size \<longrightarrow> flag (rounds' ! i ! k) = 0) \<and>
      (\<forall>i k. i < unat nthr \<and> 1 \<le> k \<and> k < ?size \<and>
             i mod 2 ^ k \<noteq> 0 \<and> i mod 2 ^ k \<noteq> 2 ^ (k - 1) \<longrightarrow>
         role (rounds' ! i ! k) = role (rounds ! i ! k) \<and>
         (role (rounds ! i ! k) = BYE \<or> role (rounds ! i ! k) = DROPOUT \<longrightarrow>
            opponent (rounds' ! i ! k) = opponent (rounds ! i ! k)))"
  proof (intro exI conjI)
    from True show "ck_barrier_tournament_round_init rounds nthr = Inr ?after"
      by (simp only: round_init_table [OF assms] if_True)
    show "\<forall>i k. i < unat nthr \<and> k < ?size \<longrightarrow> flag (?after ! i ! k) = 0"
      using flags by simp
    show "\<forall>i k. i < unat nthr \<and> 1 \<le> k \<and> k < ?size \<and>
           i mod 2 ^ k \<noteq> 0 \<and> i mod 2 ^ k \<noteq> 2 ^ (k - 1) \<longrightarrow>
       role (?after ! i ! k) = role (rounds ! i ! k) \<and>
       (role (rounds ! i ! k) = BYE \<or> role (rounds ! i ! k) = DROPOUT \<longrightarrow>
          opponent (?after ! i ! k) = opponent (rounds ! i ! k))"
    proof (intro allI impI)
      fix i k
      assume "i < unat nthr \<and> 1 \<le> k \<and> k < ?size \<and>
           i mod 2 ^ k \<noteq> 0 \<and> i mod 2 ^ k \<noteq> 2 ^ (k - 1)"
      then have "i < unat nthr" "1 \<le> k" "k < ?size" "i mod 2 ^ k \<noteq> 0"
          "i mod 2 ^ k \<noteq> 2 ^ (k - 1)"
        by simp_all
      then show "role (?after ! i ! k) = role (rounds ! i ! k) \<and>
       (role (rounds ! i ! k) = BYE \<or> role (rounds ! i ! k) = DROPOUT \<longrightarrow>
          opponent (?after ! i ! k) = opponent (rounds ! i ! k))"
        by (rule kept)
    qed
  qed
  then show ?thesis unfolding if_P [OF True] .
qed

text \<open>
  Claim C4, as amended. For every \<open>N\<close> with \<open>2 \<le> N \<le> 2^31\<close>, on a table of at least \<open>N\<close>
  rows of \<open>size(N)\<close> slots, \<open>ck_barrier_tournament_round_init(rounds, N)\<close> returns when
  every entry that it gives no role to directs its row-pointer load into the table, and
  faults on that load otherwise. When it returns: every thread's round-0 entry has role
  DROPOUT; thread 0 at the last round \<open>size(N) - 1\<close> has role CHAMPION; and any other
  entry of the table with role CHAMPION is one the function assigns no role to
  (\<open>k \<ge> 1\<close> and \<open>i mod 2^k\<close> neither 0 nor \<open>2^(k-1)\<close>) and held CHAMPION before the
  call. So exactly one entry has role CHAMPION when no such entry held it before. For
  \<open>N = 5\<close> the CHAMPION is thread 0 at round 3 and thread 4's round-1 role is BYE.
\<close>

theorem tournament_round_init_champion:
  assumes "2 \<le> unat nthr" and "unat nthr \<le> 2 ^ 31" and "rounds_allocated rounds nthr"
  shows "if stale_roles_in_range rounds nthr then
    (\<exists>rounds'. ck_barrier_tournament_round_init rounds nthr = Inr rounds' \<and>
      (\<forall>i. i < unat nthr \<longrightarrow> role (rounds' ! i ! 0) = DROPOUT) \<and>
      role (rounds' ! 0 ! (unat (ck_barrier_tournament_size nthr) - 1)) = CHAMPION \<and>
      (\<forall>i k. i < unat nthr \<and> k < unat (ck_barrier_tournament_size nthr) \<and>
             role (rounds' ! i ! k) = CHAMPION \<longrightarrow>
         i = 0 \<and> k = unat (ck_barrier_tournament_size nthr) - 1 \<or>
         1 \<le> k \<and> i mod 2 ^ k \<noteq> 0 \<and> i mod 2 ^ k \<noteq> 2 ^ (k - 1) \<and>
           role (rounds ! i ! k) = CHAMPION) \<and>
      (nthr = 5 \<longrightarrow> role (rounds' ! 0 ! 3) = CHAMPION \<and> role (rounds' ! 4 ! 1) = BYE))
    else ck_barrier_tournament_round_init rounds nthr = Inl OutOfBounds"
proof (cases "stale_roles_in_range rounds nthr")
  case False
  then have "ck_barrier_tournament_round_init rounds nthr = Inl OutOfBounds"
    by (simp only: round_init_table [OF assms(3)] if_False)
  then show ?thesis unfolding if_not_P [OF False] .
next
  case stale: True
  let ?size = "unat (ck_barrier_tournament_size nthr)"
  let ?after = "table_after nthr ?size 0 rounds"
  have n1: "1 \<le> unat nthr" using assms(1) by simp
  note rounds_iff = nthr_log_rounds(1) [OF n1 assms(2)]
  have size: "?size = Suc (unat (nthr_log nthr))" by (rule unat_tournament_size)
  have "2 ^ 0 < unat nthr" using assms(1) by simp
  then have L: "0 < unat (nthr_log nthr)" by (simp only: rounds_iff [symmetric])
  have dropout: "role (?after ! i ! 0) = DROPOUT" if "i < unat nthr" for i
  proof -
    have "0 < ?size" by (simp add: size)
    from table_after_entry [OF assms(3) that this] show ?thesis by simp
  qed
  have last: "1 \<le> ?size - 1" "?size - 1 < ?size" using L by (simp_all add: size)
  have pos: "0 < unat nthr" using assms(1) by simp
  have not_more: "\<not> 2 ^ (?size - 1) < unat nthr"
    by (simp add: size rounds_iff [symmetric])
  have half: "2 ^ (?size - 1 - 1) < unat nthr"
    using later_round(4) [OF last] .
  have champion: "role (?after ! 0 ! (?size - 1)) = CHAMPION"
    using not_more half tournament_entry(1) [OF assms(3) pos last]
    by (simp add: role_spec_def)
  have only: "i = 0 \<and> k = ?size - 1 \<or>
       1 \<le> k \<and> i mod 2 ^ k \<noteq> 0 \<and> i mod 2 ^ k \<noteq> 2 ^ (k - 1) \<and>
         role (rounds ! i ! k) = CHAMPION"
    if "i < unat nthr" "k < ?size" "role (?after ! i ! k) = CHAMPION" for i k
  proof (cases "k = 0")
    case True
    with that dropout [of i] show ?thesis by simp
  next
    case False
    then have k: "1 \<le> k" by simp
    note entry = tournament_entry(1) [OF assms(3) that(1) k that(2)]
    show ?thesis
    proof (cases "i mod 2 ^ k = 0")
      case True
      with that(3) entry have c: "\<not> (i + 2 ^ (k - 1) < unat nthr \<and> 2 ^ k < unat nthr)"
          "\<not> unat nthr \<le> i + 2 ^ (k - 1)"
        by (auto simp: role_spec_def split: if_splits)
      then have big: "unat nthr \<le> 2 ^ k" by simp
      with that(1) have "i < 2 ^ k" by simp
      with True have "i = 0" by simp
      moreover from big have "\<not> k < unat (nthr_log nthr)"
        by (simp add: rounds_iff)
      with that(2) have "k = ?size - 1" by (simp add: size)
      ultimately show ?thesis by simp
    next
      case False
      with that(3) entry k show ?thesis
        by (auto simp: role_spec_def split: if_splits)
    qed
  qed
  have five: "role (?after ! 0 ! 3) = CHAMPION \<and> role (?after ! 4 ! 1) = BYE" if "nthr = 5"
  proof -
    from that have s: "?size = 4" by (simp add: tournament_sizes)
    with champion have "role (?after ! 0 ! 3) = CHAMPION" by simp
    moreover have "role (?after ! 4 ! 1) = BYE"
      using tournament_entry(1) [OF assms(3), of 4 1] that s
      by (simp add: role_spec_def)
    ultimately show ?thesis ..
  qed
  have "\<exists>rounds'. ck_barrier_tournament_round_init rounds nthr = Inr rounds' \<and>
      (\<forall>i. i < unat nthr \<longrightarrow> role (rounds' ! i ! 0) = DROPOUT) \<and>
      role (rounds' ! 0 ! (?size - 1)) = CHAMPION \<and>
      (\<forall>i k. i < unat nthr \<and> k < ?size \<and> role (rounds' ! i ! k) = CHAMPION \<longrightarrow>
         i = 0 \<and> k = ?size - 1 \<or>
         1 \<le> k \<and> i mod 2 ^ k \<noteq> 0 \<and> i mod 2 ^ k \<noteq> 2 ^ (k - 1) \<and>
           role (rounds ! i ! k) = CHAMPION) \<and>
      (nthr = 5 \<longrightarrow> role (rounds' ! 0 ! 3) = CHAMPION \<and> role (rounds' ! 4 ! 1) = BYE)"
  proof (intro exI conjI)
    from stale show "ck_barrier_tournament_round_init rounds nthr = Inr ?after"
      by (simp only: round_init_table [OF assms(3)] if_True)
    show "\<forall>i. i < unat nthr \<longrightarrow> role (?after ! i ! 0) = DROPOUT"
      using dropout by simp
    show "role (?after ! 0 ! (?size - 1)) = CHAMPION" by (rule champion)
    show "\<forall>i k. i < unat nthr \<and> k < ?size \<and> role (?after ! i ! k) = CHAMPION \<longrightarrow>
       i = 0 \<and> k = ?size - 1 \<or>
       1 \<le> k \<and> i mod 2 ^ k \<noteq> 0 \<and> i mod 2 ^ k \<noteq> 2 ^ (k - 1) \<and>
         role (rounds ! i ! k) = CHAMPION"
    proof (intro allI impI)
      fix i k
      assume "i < unat nthr \<and> k < ?size \<and> role (?after ! i ! k) = CHAMPION"
      then have "i < unat nthr" "k < ?size" "role (?after ! i ! k) = CHAMPION" by simp_all
      then show "i = 0 \<and> k = ?size - 1 \<or>
       1 \<le> k \<and> i mod 2 ^ k \<noteq> 0 \<and> i mod 2 ^ k \<noteq> 2 ^ (k - 1) \<and>
         role (rounds ! i ! k) = CHAMPION"
        by (rule only)
    qed
    show "nthr = 5 \<longrightarrow> role (?after ! 0 ! 3) = CHAMPION \<and> role (?after ! 4 ! 1) = BYE"
      using five by simp
  qed
  then show ?thesis unfolding if_P [OF stale] .
qed


text \<open>
  Five threads on a blank table: thread 0 wins round 1 against thread 1, and thread 4
  has no partner in round 1.
\<close>

theorem tournament_round_init_roles_witness:
  "1 \<le> unat (5::u32) \<and> rounds_allocated (replicate 5 (replicate 4 blank_round)) 5 \<and>
   stale_roles_in_range (replicate 5 (replicate 4 blank_round)) 5 \<and>
   (\<exists>rounds'. ck_barrier_tournament_round_init (replicate 5 (replicate 4 blank_round)) 5 = Inr rounds' \<and>
      role (rounds' ! 0 ! 1) = WINNER \<and> opponent (rounds' ! 0 ! 1) = Flag 1 1 \<and>
      role (rounds' ! 4 ! 1) = BYE \<and>
      role (rounds' ! 1 ! 1) = LOSER \<and> opponent (rounds' ! 1 ! 1) = Flag 0 1 \<and>
      flag (rounds' ! 4 ! 3) = 0)"
proof -
  have h1: "1 \<le> unat (5::u32)" by simp
  note h2 = blank_allocated(1) [of blank_round]
  note h3 = blank_in_range(1)
  from tournament_round_init_roles [OF h1 h2, unfolded if_P [OF h3]]
  obtain rounds' where init:
      "ck_barrier_tournament_round_init (replicate 5 (replicate 4 blank_round)) 5 = Inr rounds'"
    and roles: "\<And>i k. i < unat (5::u32) \<and> 1 \<le> k \<and> k < unat (ck_barrier_tournament_size 5) \<Longrightarrow>
       (i mod 2 ^ k = 0 \<and> i + 2 ^ (k - 1) < unat (5::u32) \<and> 2 ^ k < unat (5::u32) \<longrightarrow>
          role (rounds' ! i ! k) = WINNER) \<and>
       (i mod 2 ^ k = 0 \<and> unat (5::u32) \<le> i + 2 ^ (k - 1) \<longrightarrow>
          role (rounds' ! i ! k) = BYE) \<and>
       (i mod 2 ^ k = 2 ^ (k - 1) \<longrightarrow>
          role (rounds' ! i ! k) = LOSER \<and>
          opponent (rounds' ! i ! k) = Flag (i - 2 ^ (k - 1)) k) \<and>
       (role (rounds' ! i ! k) = WINNER \<or> role (rounds' ! i ! k) = CHAMPION \<longrightarrow>
          opponent (rounds' ! i ! k) = Flag (i + 2 ^ (k - 1)) k)"
    and flags: "\<And>i k. i < unat (5::u32) \<and> k < unat (ck_barrier_tournament_size 5) \<Longrightarrow>
       flag (rounds' ! i ! k) = 0"
    by blast
  from roles [of 0 1] have "role (rounds' ! 0 ! 1) = WINNER" "opponent (rounds' ! 0 ! 1) = Flag 1 1"
    by (simp_all add: tournament_sizes)
  moreover from roles [of 4 1] have "role (rounds' ! 4 ! 1) = BYE"
    by (simp add: tournament_sizes)
  moreover from roles [of 1 1]
  have "role (rounds' ! 1 ! 1) = LOSER" "opponent (rounds' ! 1 ! 1) = Flag 0 1"
    by (simp_all add: tournament_sizes)
  moreover from flags [of 4 3] have "flag (rounds' ! 4 ! 3) = 0"
    by (simp add: tournament_sizes)
  ultimately show ?thesis using h1 h2 h3 init by blast
qed

text \<open>
  Three threads on a blank table: thread 1 lost round 1, so its round-2 entry
  (\<open>1 mod 4 = 1\<close>) is given no role; the BYE it held before is kept, and so is its
  opponent.
\<close>

theorem tournament_round_init_frame_witness:
  "rounds_allocated (replicate 3 (replicate 3 blank_round)) 3 \<and>
   stale_roles_in_range (replicate 3 (replicate 3 blank_round)) 3 \<and>
   (\<exists>rounds'. ck_barrier_tournament_round_init (replicate 3 (replicate 3 blank_round)) 3 = Inr rounds' \<and>
      flag (rounds' ! 1 ! 2) = 0 \<and> role (rounds' ! 1 ! 2) = BYE \<and>
      opponent (rounds' ! 1 ! 2) = Flag 99 99)"
proof -
  note h = blank_allocated(2) [of blank_round]
  note h' = blank_in_range(2)
  from tournament_round_init_frame [OF h, unfolded if_P [OF h']]
  obtain rounds' where init:
      "ck_barrier_tournament_round_init (replicate 3 (replicate 3 blank_round)) 3 = Inr rounds'"
    and flags: "\<And>i k. i < unat (3::u32) \<and> k < unat (ck_barrier_tournament_size 3) \<Longrightarrow>
       flag (rounds' ! i ! k) = 0"
    and kept: "\<And>i k. i < unat (3::u32) \<and> 1 \<le> k \<and> k < unat (ck_barrier_tournament_size 3) \<and>
           i mod 2 ^ k \<noteq> 0 \<and> i mod 2 ^ k \<noteq> 2 ^ (k - 1) \<Longrightarrow>
       role (rounds' ! i ! k) = role (replicate 3 (replicate 3 blank_round) ! i ! k) \<and>
       (role (replicate 3 (replicate 3 blank_round) ! i ! k) = BYE \<or> role (replicate 3 (replicate 3 blank_round) ! i ! k) = DROPOUT \<longrightarrow>
          opponent (rounds' ! i ! k) = opponent (replicate 3 (replicate 3 blank_round) ! i ! k))"
    by blast
  from flags [of 1 2] have "flag (rounds' ! 1 ! 2) = 0"
    by (simp add: tournament_sizes)
  moreover from kept [of 1 2]
  have "role (rounds' ! 1 ! 2) = BYE" "opponent (rounds' ! 1 ! 2) = Flag 99 99"
    by (simp_all add: tournament_sizes blank_round_def)
  ultimately show ?thesis using h h' init by blast
qed

text \<open>
  Claim C10 as stated (role and opponent of such an entry are never written) fails for
  the opponent: with five threads, the round-2 entry of thread 1 (\<open>1 mod 4 = 1\<close>) held
  the role WINNER before the call, on a table otherwise blank. The call returns, and has
  overwritten the opponent of that entry with \<open>&rounds[3][2].flag\<close>.
\<close>

theorem tournament_round_init_frame_counterexample:
  "\<not> isl (ck_barrier_tournament_round_init (stale_table WINNER) 5) \<and>
   opponent (stale_table WINNER ! 1 ! 2) = Flag 99 99 \<and>
   opponent (projr (ck_barrier_tournament_round_init (stale_table WINNER) 5) ! 1 ! 2) = Flag 3 2"
proof -
  note h = stale_table_allocated [of WINNER]
  have i: "1 < unat (5::u32)" and k: "(1::nat) \<le> 2" "2 < unat (ck_barrier_tournament_size 5)"
    by (simp_all add: tournament_sizes)
  note entry = tournament_entry [OF h i k]
  from entry(1) have "role (table_after 5 (unat (ck_barrier_tournament_size 5)) 0 (stale_table WINNER) ! 1 ! 2) = WINNER"
    by (simp add: role_spec_def stale_table_entry)
  with entry(4)
  have "opponent (table_after 5 (unat (ck_barrier_tournament_size 5)) 0 (stale_table WINNER) ! 1 ! 2) = Flag 3 2"
    by simp
  then show ?thesis
    unfolding round_init_table [OF h] if_P [OF stale_table_in_range(1)]
    by (simp add: stale_table_entry blank_round_def)
qed

text \<open>Five threads, on a table that held no CHAMPION before.\<close>

theorem tournament_round_init_champion_witness:
  "2 \<le> unat (5::u32) \<and> unat (5::u32) \<le> 2 ^ 31 \<and>
   rounds_allocated (replicate 5 (replicate 4 blank_round)) 5 \<and>
   stale_roles_in_range (replicate 5 (replicate 4 blank_round)) 5 \<and>
   (\<exists>rounds'. ck_barrier_tournament_round_init (replicate 5 (replicate 4 blank_round)) 5 = Inr rounds' \<and>
      role (rounds' ! 2 ! 0) = DROPOUT \<and> role (rounds' ! 0 ! 3) = CHAMPION \<and>
      role (rounds' ! 4 ! 1) = BYE)"
proof -
  have h1: "2 \<le> unat (5::u32)" and h2: "unat (5::u32) \<le> 2 ^ 31" by simp_all
  note h3 = blank_allocated(1) [of blank_round]
  note h4 = blank_in_range(1)
  from tournament_round_init_champion [OF h1 h2 h3, unfolded if_P [OF h4]]
  obtain rounds' where init:
      "ck_barrier_tournament_round_init (replicate 5 (replicate 4 blank_round)) 5 = Inr rounds'"
    and dropout: "\<And>i. i < unat (5::u32) \<Longrightarrow> role (rounds' ! i ! 0) = DROPOUT"
    and five: "role (rounds' ! 0 ! 3) = CHAMPION \<and> role (rounds' ! 4 ! 1) = BYE"
    by blast
  from dropout [of 2] have "role (rounds' ! 2 ! 0) = DROPOUT" by simp
  with five h1 h2 h3 h4 init show ?thesis by blast
qed

text \<open>
  Claim C4 as stated (exactly one CHAMPION in the whole table, for every \<open>N \<ge> 2\<close>)
  fails twice. With five threads, the round-2 entry of thread 1 (\<open>1 mod 4 = 1\<close>) held
  CHAMPION before the call, on a table otherwise blank: the call returns, and the
  round-3 entry of thread 0 and the round-2 entry of thread 1 both have role CHAMPION.
  With \<open>2^31 + 1\<close> threads the size query gives 1: the call returns, and thread 0 at the
  last round, which is round 0, has role DROPOUT.
\<close>

theorem tournament_round_init_champion_counterexample:
  "\<not> isl (ck_barrier_tournament_round_init (stale_table CHAMPION) 5) \<and>
   role (projr (ck_barrier_tournament_round_init (stale_table CHAMPION) 5) ! 0 ! 3) = CHAMPION \<and>
   role (projr (ck_barrier_tournament_round_init (stale_table CHAMPION) 5) ! 1 ! 2) = CHAMPION \<and>
   ck_barrier_tournament_size 2147483649 = 1 \<and>
   \<not> isl (ck_barrier_tournament_round_init (replicate 2147483649 [blank_round]) 2147483649) \<and>
   role (projr (ck_barrier_tournament_round_init (replicate 2147483649 [blank_round]) 2147483649) ! 0 ! 0) =
     DROPOUT"
proof -
  note h = stale_table_allocated [of CHAMPION]
  have i0: "0 < unat (5::u32)" and i1: "1 < unat (5::u32)"
    and k2: "(1::nat) \<le> 2" "2 < unat (ck_barrier_tournament_size 5)"
    and k3: "(1::nat) \<le> 3" "3 < unat (ck_barrier_tournament_size 5)"
    by (simp_all add: tournament_sizes)
  from tournament_entry(1) [OF h i0 k3]
  have "role (table_after 5 (unat (ck_barrier_tournament_size 5)) 0 (stale_table CHAMPION) ! 0 ! 3) = CHAMPION"
    by (simp add: role_spec_def)
  moreover from tournament_entry(1) [OF h i1 k2]
  have "role (table_after 5 (unat (ck_barrier_tournament_size 5)) 0 (stale_table CHAMPION) ! 1 ! 2) = CHAMPION"
    by (simp add: role_spec_def stale_table_entry)
  ultimately have five: "\<not> isl (ck_barrier_tournament_round_init (stale_table CHAMPION) 5) \<and>
      role (projr (ck_barrier_tournament_round_init (stale_table CHAMPION) 5) ! 0 ! 3) = CHAMPION \<and>
      role (projr (ck_barrier_tournament_round_init (stale_table CHAMPION) 5) ! 1 ! 2) = CHAMPION"
    unfolding round_init_table [OF h] if_P [OF stale_table_in_range(2)] by simp
  have big: "2 ^ 31 < unat (2147483649::u32)" by simp
  have table: "replicate 2147483649 [blank_round] = replicate (unat (2147483649::u32)) [blank_round]"
    by simp
  note overflow = round_init_overflow [OF big table]
  from five overflow show ?thesis by blast
qed

subsection \<open>One participant\<close>

text \<open>
  \<open>ck_barrier_tournament_state_init\<close>: the sense is all-ones and the thread id is the
  prior value of the global counter, which is incremented.
\<close>

definition ck_barrier_tournament_state_init :: "u32 \<Rightarrow> ck_barrier_tournament_state \<times> u32" where
  "ck_barrier_tournament_state_init ck_barrier_tournament_tid =
     (\<lparr>ts_sense = NOT 0, ts_vpid = ck_barrier_tournament_tid\<rparr>, ck_barrier_tournament_tid + 1)"

text \<open>
  Claim C9, at the tournament barrier set up for one participant. The size query
  declares one round slot per thread, \<open>round_init\<close> fills slot 0 with DROPOUT, and the
  wait starts its arrival loop at round 1: its first read, \<open>rounds[0][1].role\<close>, is
  outside the slots of the thread.
\<close>

theorem tournament_single_thread:
  "ck_barrier_tournament_size 1 = 1 \<and>
   ck_barrier_tournament_round_init [[entry]] 1 = Inr [[entry\<lparr>flag := 0, role := DROPOUT\<rparr>]] \<and>
   ck_barrier_tournament environment [[entry\<lparr>flag := 0, role := DROPOUT\<rparr>]]
       (fst (ck_barrier_tournament_state_init 0)) = Some (Inl OutOfBounds)"
proof -
  have "ck_barrier_tournament_round_init [[entry]] 1 = Inr [[entry\<lparr>flag := 0, role := DROPOUT\<rparr>]]"
    by (simp add: ck_barrier_tournament_round_init_def Let_def tournament_sizes
        round_init_threads.simps [of _ _ 0] round_init_threads.simps [of _ _ 1]
        round_init_rounds.simps [of _ _ _ 1] in_rounds_def)
  moreover have "ck_barrier_tournament environment [[entry\<lparr>flag := 0, role := DROPOUT\<rparr>]]
       (fst (ck_barrier_tournament_state_init 0)) = Some (Inl OutOfBounds)"
    by (simp add: ck_barrier_tournament_def ck_barrier_tournament_state_init_def
        tournament_arrival.simps read_round_def in_rounds_def)
  ultimately show ?thesis by (simp add: tournament_sizes)
qed


section \<open>Dissemination barrier\<close>

text \<open>
  Modelled from the spec: the types of \<open>ck_barrier.h\<close>, with the fields the source uses.
  Each thread has an array of flag slots, allocated by the caller with as many slots as
  the size query says; \<open>barrier[i].flags[p]\<close> points into such an array. A pointer to a
  slot is the index of the array and an offset in it, and so is the address of the
  \<open>tflag\<close> of a slot. The memory also holds the static \<open>ck_barrier_dissemination_nthr\<close>.
\<close>

datatype internal_ptr = Internal nat nat

datatype tflag_ptr = Tflag nat nat

record ck_barrier_dissemination_internal =
  tflag :: u32
  pflag :: tflag_ptr

record ck_barrier_dissemination =
  flags :: "internal_ptr list"

record ck_barrier_dissemination_state =
  ds_parity :: int
  ds_sense :: u32
  ds_tid :: u32

record dissemination_memory =
  dm_barrier :: "ck_barrier_dissemination list"
  dm_internal :: "ck_barrier_dissemination_internal list list"
  ck_barrier_dissemination_nthr :: u32

text \<open>
  Pointer arithmetic \<open>p + n\<close> on slots, the address \<open>&p[k].tflag\<close>, and the accesses
  \<open>barrier[i].flags[p]\<close>, \<open>p[k]\<close> and \<open>*pflag = v\<close>, each a fault outside its array.
\<close>

definition ptr_add :: "internal_ptr \<Rightarrow> u32 \<Rightarrow> internal_ptr" where
  "ptr_add p n = (case p of Internal a off \<Rightarrow> Internal a (off + unat n))"

definition tflag_addr :: "internal_ptr \<Rightarrow> u32 \<Rightarrow> tflag_ptr" where
  "tflag_addr p k = (case p of Internal a off \<Rightarrow> Tflag a (off + unat k))"

definition flags_of :: "ck_barrier_dissemination list \<Rightarrow> u32 \<Rightarrow> int \<Rightarrow> error + internal_ptr" where
  "flags_of barrier i p =
     (if unat i < length barrier \<and> 0 \<le> p \<and> nat p < length (flags (barrier ! unat i))
      then Inr (flags (barrier ! unat i) ! nat p)
      else Inl OutOfBounds)"

definition read_internal ::
  "ck_barrier_dissemination_internal list list \<Rightarrow> internal_ptr \<Rightarrow> u32
   \<Rightarrow> error + ck_barrier_dissemination_internal" where
  "read_internal internal p k =
     (case p of Internal a off \<Rightarrow>
        if a < length internal \<and> off + unat k < length (internal ! a)
        then Inr (internal ! a ! (off + unat k))
        else Inl OutOfBounds)"

definition update_internal ::
  "ck_barrier_dissemination_internal list list \<Rightarrow> internal_ptr \<Rightarrow> u32
   \<Rightarrow> (ck_barrier_dissemination_internal \<Rightarrow> ck_barrier_dissemination_internal)
   \<Rightarrow> error + ck_barrier_dissemination_internal list list" where
  "update_internal internal p k f =
     (case p of Internal a off \<Rightarrow>
        if a < length internal \<and> off + unat k < length (internal ! a)
        then Inr (internal[a := (internal ! a)[off + unat k := f (internal ! a ! (off + unat k))]])
        else Inl OutOfBounds)"

definition store_tflag ::
  "ck_barrier_dissemination_internal list list \<Rightarrow> tflag_ptr \<Rightarrow> u32
   \<Rightarrow> error + ck_barrier_dissemination_internal list list" where
  "store_tflag internal p v =
     (case p of Tflag a slot \<Rightarrow>
        if a < length internal \<and> slot < length (internal ! a)
        then Inr (internal[a := (internal ! a)[slot := (internal ! a ! slot)\<lparr>tflag := v\<rparr>]])
        else Inl OutOfBounds)"

text \<open>The first loop of \<open>ck_barrier_dissemination_init\<close>.\<close>

function dissemination_init_flags ::
  "u32 \<Rightarrow> u32 \<Rightarrow> u32 \<Rightarrow> internal_ptr list \<Rightarrow> ck_barrier_dissemination list
   \<Rightarrow> error + ck_barrier_dissemination list" where
  "dissemination_init_flags nthr size_n i barrier_internal barrier =
     (if i < nthr then
        (if unat i < length barrier \<and> unat i < length barrier_internal then
           dissemination_init_flags nthr size_n (i + 1) barrier_internal
             (barrier[unat i := (barrier ! unat i)
                \<lparr>flags := (flags (barrier ! unat i))
                   [0 := barrier_internal ! unat i,
                    1 := ptr_add (barrier_internal ! unat i) size_n]\<rparr>])
         else Inl OutOfBounds)
      else Inr barrier)"
  by pat_completeness auto
termination
  by (relation "measure (\<lambda>(nthr, size_n, i, barrier_internal, barrier). unat nthr - unat i)")
    (auto, unat_arith)

declare dissemination_init_flags.simps [simp del]

text \<open>The partner \<open>j\<close> of thread \<open>i\<close> for the round with \<open>offset = 2^k\<close>.\<close>

definition dissemination_partner :: "u32 \<Rightarrow> u32 \<Rightarrow> u32 \<Rightarrow> u32" where
  "dissemination_partner nthr i offset =
     (if nthr AND (nthr - 1) = 0 then (i + offset) AND (nthr - 1)
      else (i + offset) mod nthr)"

text \<open>
  The body of the inner loop. The double assignment clears \<open>flags[1][k].tflag\<close> first
  and \<open>flags[0][k].tflag\<close> second.
\<close>

definition dissemination_init_round ::
  "u32 \<Rightarrow> u32 \<Rightarrow> u32 \<Rightarrow> u32 \<Rightarrow> ck_barrier_dissemination list
   \<Rightarrow> ck_barrier_dissemination_internal list list
   \<Rightarrow> error + ck_barrier_dissemination_internal list list" where
  "dissemination_init_round nthr i k offset barrier internal =
     (let j = dissemination_partner nthr i offset in
      ebind (flags_of barrier i 0) (\<lambda>mine0.
      ebind (flags_of barrier j 0) (\<lambda>partner0.
      ebind (update_internal internal mine0 k (\<lambda>s. s\<lparr>pflag := tflag_addr partner0 k\<rparr>)) (\<lambda>internal.
      ebind (flags_of barrier i 1) (\<lambda>mine1.
      ebind (flags_of barrier j 1) (\<lambda>partner1.
      ebind (update_internal internal mine1 k (\<lambda>s. s\<lparr>pflag := tflag_addr partner1 k\<rparr>)) (\<lambda>internal.
      ebind (update_internal internal mine1 k (\<lambda>s. s\<lparr>tflag := 0\<rparr>)) (\<lambda>internal.
      update_internal internal mine0 k (\<lambda>s. s\<lparr>tflag := 0\<rparr>)))))))))"

text \<open>
  The inner loop \<open>for (k = 0, offset = 1; k < size; ++k, offset <<= 1)\<close> and the outer
  loop \<open>for (i = 0; i < nthr; ++i)\<close>.
\<close>

function dissemination_init_rounds ::
  "u32 \<Rightarrow> u32 \<Rightarrow> u32 \<Rightarrow> u32 \<Rightarrow> u32 \<Rightarrow> ck_barrier_dissemination list
   \<Rightarrow> ck_barrier_dissemination_internal list list
   \<Rightarrow> error + ck_barrier_dissemination_internal list list" where
  "dissemination_init_rounds nthr size_n i k offset barrier internal =
     (if k < size_n then
        (case dissemination_init_round nthr i k offset barrier internal of
           Inl e \<Rightarrow> Inl e
         | Inr internal \<Rightarrow>
             dissemination_init_rounds nthr size_n i (k + 1) (push_bit 1 offset) barrier internal)
      else Inr internal)"
  by pat_completeness auto
termination
  by (relation "measure (\<lambda>(nthr, size_n, i, k, offset, barrier, internal). unat size_n - unat k)")
    (auto, unat_arith)

declare dissemination_init_rounds.simps [simp del]

function dissemination_init_partners ::
  "u32 \<Rightarrow> u32 \<Rightarrow> u32 \<Rightarrow> ck_barrier_dissemination list
   \<Rightarrow> ck_barrier_dissemination_internal list list
   \<Rightarrow> error + ck_barrier_dissemination_internal list list" where
  "dissemination_init_partners nthr size_n i barrier internal =
     (if i < nthr then
        (case dissemination_init_rounds nthr size_n i 0 1 barrier internal of
           Inl e \<Rightarrow> Inl e
         | Inr internal \<Rightarrow> dissemination_init_partners nthr size_n (i + 1) barrier internal)
      else Inr internal)"
  by pat_completeness auto
termination
  by (relation "measure (\<lambda>(nthr, size_n, i, barrier, internal). unat nthr - unat i)")
    (auto, unat_arith)

declare dissemination_init_partners.simps [simp del]

definition ck_barrier_dissemination_init ::
  "dissemination_memory \<Rightarrow> internal_ptr list \<Rightarrow> u32 \<Rightarrow> error + dissemination_memory" where
  "ck_barrier_dissemination_init mem barrier_internal nthr =
     (let mem = mem\<lparr>ck_barrier_dissemination_nthr := nthr\<rparr>;
          size_n = ck_barrier_internal_log (ck_barrier_internal_power_2 nthr)
      in ebind (dissemination_init_flags nthr size_n 0 barrier_internal (dm_barrier mem)) (\<lambda>barrier.
         ebind (dissemination_init_partners nthr size_n 0 barrier (dm_internal mem)) (\<lambda>internal.
           Inr (mem\<lparr>dm_barrier := barrier, dm_internal := internal\<rparr>))))"

definition ck_barrier_dissemination_state_init :: "u32 \<Rightarrow> ck_barrier_dissemination_state \<times> u32" where
  "ck_barrier_dissemination_state_init ck_barrier_dissemination_tid =
     (\<lparr>ds_parity = 0, ds_sense = NOT 0, ds_tid = ck_barrier_dissemination_tid\<rparr>,
      ck_barrier_dissemination_tid + 1)"

definition ck_barrier_dissemination_size :: "u32 \<Rightarrow> u32" where
  "ck_barrier_dissemination_size nthr =
     ck_barrier_internal_log (ck_barrier_internal_power_2 nthr) * 2"

text \<open>
  \<open>ck_barrier_dissemination\<close>: in each round the thread stores its sense through the
  \<open>pflag\<close> of its slot and spins until its own \<open>tflag\<close> has that sense.
\<close>

definition own_tflag_differs ::
  "ck_barrier_dissemination_state \<Rightarrow> u32 \<Rightarrow> dissemination_memory \<Rightarrow> error + bool" where
  "own_tflag_differs state i mem =
     ebind (flags_of (dm_barrier mem) (ds_tid state) (ds_parity state)) (\<lambda>mine.
     ebind (read_internal (dm_internal mem) mine i) (\<lambda>s.
       Inr (tflag s \<noteq> ds_sense state)))"

definition unblock_partner ::
  "ck_barrier_dissemination_state \<Rightarrow> u32 \<Rightarrow> dissemination_memory \<Rightarrow> error + dissemination_memory" where
  "unblock_partner state i mem =
     ebind (flags_of (dm_barrier mem) (ds_tid state) (ds_parity state)) (\<lambda>mine.
     ebind (read_internal (dm_internal mem) mine i) (\<lambda>s.
     ebind (store_tflag (dm_internal mem) (pflag s) (ds_sense state)) (\<lambda>internal.
       Inr (mem\<lparr>dm_internal := internal\<rparr>))))"

function dissemination_rounds ::
  "u32 \<Rightarrow> u32 \<Rightarrow> ck_barrier_dissemination_state \<Rightarrow> dissemination_memory env \<Rightarrow> dissemination_memory
   \<Rightarrow> error + (dissemination_memory \<times> dissemination_memory env)" where
  "dissemination_rounds size_n i state environment mem =
     (if i < size_n then
        (case unblock_partner state i mem of
           Inl e \<Rightarrow> Inl e
         | Inr mem \<Rightarrow>
             (case spin (own_tflag_differs state i) environment mem of
                Inl e \<Rightarrow> Inl e
              | Inr (mem, environment) \<Rightarrow> dissemination_rounds size_n (i + 1) state environment mem))
      else Inr (mem, environment))"
  by pat_completeness auto
termination
  by (relation "measure (\<lambda>(size_n, i, state, environment, mem). unat size_n - unat i)")
    (auto, unat_arith)

declare dissemination_rounds.simps [simp del]

definition ck_barrier_dissemination ::
  "dissemination_memory env \<Rightarrow> dissemination_memory \<Rightarrow> ck_barrier_dissemination_state
   \<Rightarrow> error + (dissemination_memory \<times> ck_barrier_dissemination_state \<times> dissemination_memory env)" where
  "ck_barrier_dissemination environment mem state =
     (let size_n = ck_barrier_internal_log
                     (ck_barrier_internal_power_2 (ck_barrier_dissemination_nthr mem))
      in ebind (dissemination_rounds size_n 0 state environment mem) (\<lambda>(mem, environment).
           let state = (if ds_parity state = 1 then state\<lparr>ds_sense := NOT (ds_sense state)\<rparr> else state);
               state = state\<lparr>ds_parity := 1 - ds_parity state\<rparr>
           in Inr (mem, state, environment)))"

text \<open>Memory as the caller may hand it over, before initialisation.\<close>

definition blank_internal :: ck_barrier_dissemination_internal where
  "blank_internal = \<lparr>tflag = 7, pflag = Tflag 99 99\<rparr>"

definition blank_memory :: "nat \<Rightarrow> nat \<Rightarrow> dissemination_memory" where
  "blank_memory n slots =
     \<lparr>dm_barrier = replicate n \<lparr>flags = [Internal 99 99, Internal 99 99]\<rparr>,
      dm_internal = replicate n (replicate slots blank_internal),
      ck_barrier_dissemination_nthr = 0\<rparr>"

text \<open>
  Claim C6, as amended. Every completed call to \<open>ck_barrier_dissemination\<close> inverts
  \<open>state->sense\<close> exactly when the pre-call \<open>state->parity\<close> is 1, and always replaces
  \<open>state->parity\<close> by \<open>1 - state->parity\<close>; consequently two consecutive completed calls
  starting from \<open>state->parity = 0\<close> restore \<open>state->parity\<close> to 0 and leave
  \<open>state->sense\<close> inverted, whatever happens to the memory in between.
\<close>

theorem dissemination_wait_state:
  "(ck_barrier_dissemination environment mem state = Inr (mem', state', rest) \<longrightarrow>
      ds_parity state' = 1 - ds_parity state \<and>
      ds_sense state' = (if ds_parity state = 1 then NOT (ds_sense state) else ds_sense state) \<and>
      ds_tid state' = ds_tid state) \<and>
   (ck_barrier_dissemination environment mem state = Inr (mem1, state1, rest1) \<and>
    ck_barrier_dissemination environment1 mem1' state1 = Inr (mem2, state2, rest2) \<and>
    ds_parity state = 0 \<longrightarrow>
      ds_parity state2 = 0 \<and> ds_sense state2 = NOT (ds_sense state))"
proof -
  have once: "ds_parity s' = 1 - ds_parity s \<and>
      ds_sense s' = (if ds_parity s = 1 then NOT (ds_sense s) else ds_sense s) \<and>
      ds_tid s' = ds_tid s"
    if "ck_barrier_dissemination e m s = Inr (m', s', e')" for e m s m' s' e'
    using that
    by (auto simp: ck_barrier_dissemination_def Let_def ebind_eq_Inr split: if_splits)
  have twice: "ds_parity state2 = 0 \<and> ds_sense state2 = NOT (ds_sense state)"
    if "ck_barrier_dissemination environment mem state = Inr (mem1, state1, rest1)"
      "ck_barrier_dissemination environment1 mem1' state1 = Inr (mem2, state2, rest2)"
      "ds_parity state = 0"
  proof -
    from once [OF that(1)] that(3) have "ds_parity state1 = 1" "ds_sense state1 = ds_sense state"
      by simp_all
    with once [OF that(2)] show ?thesis by simp
  qed
  from once [of environment mem state mem' state' rest] twice show ?thesis by blast
qed

text \<open>
  One participant: no rounds, so the memory after \<open>ck_barrier_dissemination_init\<close> for
  \<open>nthr = 1\<close> has no slots, and the wait returns without a stall.
\<close>

lemma nthr_log_one: "ck_barrier_internal_log (ck_barrier_internal_power_2 1) = 0"
  by code_simp

definition single_memory :: dissemination_memory where
  "single_memory = \<lparr>dm_barrier = [\<lparr>flags = [Internal 0 0, Internal 0 0]\<rparr>],
     dm_internal = [[]], ck_barrier_dissemination_nthr = 1\<rparr>"

lemma dissemination_single:
  "ck_barrier_dissemination environment single_memory state =
     Inr (single_memory,
       state\<lparr>ds_sense := (if ds_parity state = 1 then NOT (ds_sense state) else ds_sense state),
             ds_parity := 1 - ds_parity state\<rparr>, environment)"
  by (simp add: ck_barrier_dissemination_def single_memory_def nthr_log_one
      dissemination_rounds.simps [of 0] ebind_simps)

theorem dissemination_wait_state_witness:
  "ck_barrier_dissemination [] single_memory \<lparr>ds_parity = 0, ds_sense = NOT 0, ds_tid = 0\<rparr> =
     Inr (single_memory, \<lparr>ds_parity = 1, ds_sense = NOT 0, ds_tid = 0\<rparr>, []) \<and>
   ck_barrier_dissemination [] single_memory \<lparr>ds_parity = 1, ds_sense = NOT 0, ds_tid = 0\<rparr> =
     Inr (single_memory, \<lparr>ds_parity = 0, ds_sense = 0, ds_tid = 0\<rparr>, []) \<and>
   ds_parity \<lparr>ds_parity = 0, ds_sense = NOT 0, ds_tid = 0\<rparr> = 0 \<and>
   ds_parity \<lparr>ds_parity = 0, ds_sense = 0 :: u32, ds_tid = 0 :: u32\<rparr> = 0 \<and>
   ds_sense \<lparr>ds_parity = 0, ds_sense = 0 :: u32, ds_tid = 0 :: u32\<rparr> =
     NOT (ds_sense \<lparr>ds_parity = 0, ds_sense = NOT 0, ds_tid = 0\<rparr>)"
proof -
  have first: "ck_barrier_dissemination [] single_memory \<lparr>ds_parity = 0, ds_sense = NOT 0, ds_tid = 0\<rparr> =
     Inr (single_memory, \<lparr>ds_parity = 1, ds_sense = NOT 0, ds_tid = 0\<rparr>, [])"
    by (simp add: dissemination_single)
  have second: "ck_barrier_dissemination [] single_memory \<lparr>ds_parity = 1, ds_sense = NOT 0, ds_tid = 0\<rparr> =
     Inr (single_memory, \<lparr>ds_parity = 0, ds_sense = 0, ds_tid = 0\<rparr>, [])"
    by (simp add: dissemination_single)
  have start: "ds_parity \<lparr>ds_parity = 0, ds_sense = NOT 0 :: u32, ds_tid = 0 :: u32\<rparr> = 0" by simp
  from dissemination_wait_state [THEN conjunct2, rule_format, OF conjI [OF first conjI [OF second start]]]
    first second start
  show ?thesis by blast
qed

text \<open>
  Claim C6 as stated (two calls from parity 0 restore the sense) fails: after
  \<open>ck_barrier_dissemination_state_init\<close> the sense is all-ones, and after two
  completed calls it is 0.
\<close>

theorem dissemination_wait_state_counterexample:
  "ck_barrier_dissemination [] single_memory (fst (ck_barrier_dissemination_state_init 0)) =
     Inr (single_memory, \<lparr>ds_parity = 1, ds_sense = NOT 0, ds_tid = 0\<rparr>, []) \<and>
   ck_barrier_dissemination [] single_memory \<lparr>ds_parity = 1, ds_sense = NOT 0, ds_tid = 0\<rparr> =
     Inr (single_memory, \<lparr>ds_parity = 0, ds_sense = 0, ds_tid = 0\<rparr>, []) \<and>
   ds_parity (fst (ck_barrier_dissemination_state_init 0)) = 0 \<and>
   ds_sense \<lparr>ds_parity = 0, ds_sense = 0 :: u32, ds_tid = 0 :: u32\<rparr> \<noteq>
     ds_sense (fst (ck_barrier_dissemination_state_init 0))"
  by (simp add: dissemination_single ck_barrier_dissemination_state_init_def)


subsection \<open>The partner table\<close>

text \<open>
  The test \<open>(nthr & (nthr - 1)) == 0\<close> holds for a non-zero \<open>nthr\<close> only when it is a power
  of two; then the bit-mask is the remainder, so both branches compute
  \<open>(i + 2^k) mod nthr\<close>, without wrap-around for \<open>nthr \<le> 2^31\<close>.
\<close>

lemma and_decrement_zero:
  fixes n :: u32
  assumes "n \<noteq> 0" and "n AND (n - 1) = 0"
  shows "\<exists>m < 32. n = 2 ^ m"
proof -
  have n32: "unat n < 2 ^ 32" using unsigned_less [of n] by simp
  define m' where "m' = (LEAST m. unat n < 2 ^ m)"
  have lt: "unat n < 2 ^ m'" unfolding m'_def using n32 by (rule LeastI)
  have m'32: "m' \<le> 32" unfolding m'_def using n32 by (rule Least_le)
  from assms(1) have pos: "0 < unat n" by (simp add: unat_gt_0)
  have "m' \<noteq> 0"
  proof
    assume "m' = 0"
    with lt pos show False by simp
  qed
  then obtain m where m: "m' = Suc m" by (cases m') auto
  have ge: "2 ^ m \<le> unat n"
  proof (rule ccontr)
    assume "\<not> 2 ^ m \<le> unat n"
    then have "unat n < 2 ^ m" by simp
    then have "m' \<le> m" unfolding m'_def by (rule Least_le)
    with m show False by simp
  qed
  from m m'32 have m32: "m < 32" by simp
  have "unat n = 2 ^ m"
  proof (rule ccontr)
    assume "unat n \<noteq> 2 ^ m"
    with ge have gt: "2 ^ m < unat n" by simp
    from pos have dec: "unat (n - 1) = unat n - 1"
      by (simp add: unat_sub word_le_nat_alt Suc_leI)
    from gt lt have "2 ^ m \<le> unat (n - 1)" "unat (n - 1) < 2 ^ Suc m"
      unfolding dec m by simp_all
    then have "bit (n - 1) m" by (rule top_bit)
    moreover from ge lt have "bit n m" unfolding m by (rule top_bit)
    ultimately have "bit (n AND (n - 1)) m" by (simp add: bit_and_iff)
    with assms(2) show False by simp
  qed
  with m32 have "n = 2 ^ m"
    by (simp add: word_unat_eq_iff unat_pow2)
  with m32 show ?thesis by blast
qed

definition partner_of :: "nat \<Rightarrow> nat \<Rightarrow> nat \<Rightarrow> nat" where
  "partner_of n i k = (i + 2 ^ k) mod n"

lemma dissemination_partner_unat:
  assumes "1 \<le> unat nthr" and "unat nthr \<le> 2 ^ 31" and "unat i < unat nthr"
    and "2 ^ k < unat nthr"
  shows "unat (dissemination_partner nthr i (2 ^ k)) = partner_of (unat nthr) (unat i) k"
proof -
  from assms(2,4) have "(2::nat) ^ k < 2 ^ 31" by simp
  then have k: "k < 31" by (simp only: power_strict_increasing_iff one_less_numeral_iff semiring_norm)
  then have upow: "unat (2 ^ k :: u32) = 2 ^ k" by (intro unat_pow2) simp
  from assms(2,3) \<open>(2::nat) ^ k < 2 ^ 31\<close> have "unat i + unat (2 ^ k :: u32) < 2 ^ LENGTH(32)"
    unfolding upow by simp
  then have "unat (i + 2 ^ k) = unat i + unat (2 ^ k :: u32)"
    by (rule unat_add_lem [THEN iffD1])
  then have usum: "unat (i + 2 ^ k) = unat i + 2 ^ k" unfolding upow .
  show ?thesis
  proof (cases "nthr AND (nthr - 1) = 0")
    case True
    from assms(1) have "nthr \<noteq> 0" by auto
    from and_decrement_zero [OF this True] obtain m where m: "m < 32" "nthr = 2 ^ m" by blast
    have "(i + 2 ^ k) AND (nthr - 1) = take_bit m (i + 2 ^ k)"
      by (simp add: m(2) take_bit_eq_mask mask_eq_decr_exp)
    moreover have "unat (take_bit m (i + 2 ^ k)) = take_bit m (unat (i + 2 ^ k))"
      by (rule unsigned_take_bit_eq)
    ultimately have "unat ((i + 2 ^ k) AND (nthr - 1)) = (unat i + 2 ^ k) mod 2 ^ m"
      by (simp only: usum take_bit_eq_mod)
    moreover have "unat nthr = 2 ^ m" unfolding m(2) using m(1) by (rule unat_pow2)
    ultimately show ?thesis
      using True by (simp add: dissemination_partner_def partner_of_def)
  next
    case False
    have "unat ((i + 2 ^ k) mod nthr) = unat (i + 2 ^ k) mod unat nthr"
      by (rule unat_mod)
    with False show ?thesis
      by (simp add: dissemination_partner_def partner_of_def usum)
  qed
qed


text \<open>
  What the first loop computes: the two flag pointers of every thread below \<open>hi\<close> are
  set, all others are kept.
\<close>

definition flags_after ::
  "u32 \<Rightarrow> internal_ptr list \<Rightarrow> nat \<Rightarrow> nat \<Rightarrow> ck_barrier_dissemination list
   \<Rightarrow> ck_barrier_dissemination list" where
  "flags_after size_n barrier_internal lo hi barrier =
     map (\<lambda>i. if lo \<le> i \<and> i < hi
               then (barrier ! i)\<lparr>flags := (flags (barrier ! i))
                      [0 := barrier_internal ! i, 1 := ptr_add (barrier_internal ! i) size_n]\<rparr>
               else barrier ! i) [0..<length barrier]"

lemma flags_after_done: "hi \<le> lo \<Longrightarrow> flags_after size_n bi lo hi barrier = barrier"
  by (rule nth_equalityI) (auto simp: flags_after_def)

lemma flags_after_step:
  assumes "i < length barrier" and "i < hi"
  shows "flags_after size_n bi (Suc i) hi
           (barrier[i := (barrier ! i)\<lparr>flags := (flags (barrier ! i))
                      [0 := bi ! i, 1 := ptr_add (bi ! i) size_n]\<rparr>]) =
         flags_after size_n bi i hi barrier"
proof (rule nth_equalityI)
  show "length (flags_after size_n bi (Suc i) hi
           (barrier[i := (barrier ! i)\<lparr>flags := (flags (barrier ! i))
                      [0 := bi ! i, 1 := ptr_add (bi ! i) size_n]\<rparr>])) =
        length (flags_after size_n bi i hi barrier)"
    by (simp add: flags_after_def)
next
  fix x
  assume "x < length (flags_after size_n bi (Suc i) hi
           (barrier[i := (barrier ! i)\<lparr>flags := (flags (barrier ! i))
                      [0 := bi ! i, 1 := ptr_add (bi ! i) size_n]\<rparr>]))"
  then have x: "x < length barrier" by (simp add: flags_after_def)
  show "flags_after size_n bi (Suc i) hi
           (barrier[i := (barrier ! i)\<lparr>flags := (flags (barrier ! i))
                      [0 := bi ! i, 1 := ptr_add (bi ! i) size_n]\<rparr>]) ! x =
        flags_after size_n bi i hi barrier ! x"
  proof (cases "x = i")
    case True
    with x assms show ?thesis by (simp add: flags_after_def)
  next
    case False
    with x show ?thesis by (auto simp: flags_after_def)
  qed
qed

lemma dissemination_init_flags_result:
  assumes "unat nthr \<le> length barrier" and "unat nthr \<le> length bi"
  shows "dissemination_init_flags nthr size_n i bi barrier =
           Inr (flags_after size_n bi (unat i) (unat nthr) barrier)"
  using assms
proof (induction nthr size_n i bi barrier rule: dissemination_init_flags.induct)
  case (1 nthr size_n i bi barrier)
  show ?case
  proof (cases "i < nthr")
    case False
    then have "unat nthr \<le> unat i" by (simp add: word_less_nat_alt)
    then have "flags_after size_n bi (unat i) (unat nthr) barrier = barrier"
      by (rule flags_after_done)
    with False show ?thesis
      by (subst dissemination_init_flags.simps) simp
  next
    case True
    then have lt: "unat i < unat nthr" by (simp add: word_less_nat_alt)
    with "1.prems" have inb: "unat i < length barrier \<and> unat i < length bi" by simp
    have suc: "unat (i + 1) = Suc (unat i)" using True by (rule word_succ)
    let ?b = "barrier[unat i := (barrier ! unat i)\<lparr>flags := (flags (barrier ! unat i))
                      [0 := bi ! unat i, 1 := ptr_add (bi ! unat i) size_n]\<rparr>]"
    have "dissemination_init_flags nthr size_n (i + 1) bi ?b =
        Inr (flags_after size_n bi (unat (i + 1)) (unat nthr) ?b)"
      using "1.prems" by (intro "1.IH" [OF True inb]) simp_all
    also have "flags_after size_n bi (unat (i + 1)) (unat nthr) ?b =
        flags_after size_n bi (unat i) (unat nthr) barrier"
      unfolding suc using inb lt by (intro flags_after_step) simp_all
    finally show ?thesis
      using True inb by (subst dissemination_init_flags.simps) simp
  qed
qed

text \<open>
  The layout after the first loop when thread \<open>i\<close> owns the array \<open>i\<close>: parity 0 starts
  at slot 0 and parity 1 at slot \<open>r\<close>. On it, one round of the second loop rewrites the
  slots \<open>k\<close> and \<open>r + k\<close> of the thread's own array.
\<close>

definition laid_out :: "nat \<Rightarrow> nat \<Rightarrow> ck_barrier_dissemination list \<Rightarrow> bool" where
  "laid_out n r barrier \<longleftrightarrow>
     n \<le> length barrier \<and> (\<forall>i < n. flags (barrier ! i) = [Internal i 0, Internal i r])"

definition slot_after ::
  "nat \<Rightarrow> nat \<Rightarrow> ck_barrier_dissemination_internal \<Rightarrow> ck_barrier_dissemination_internal" where
  "slot_after j x s = s\<lparr>pflag := Tflag j x, tflag := 0\<rparr>"

lemma dissemination_init_round_result:
  assumes "laid_out n r barrier"
    and "unat i < n" and "unat (dissemination_partner nthr i offset) = j" and "j < n"
    and "unat i < length internal" and "2 * r \<le> length (internal ! unat i)" and "unat k < r"
  shows "dissemination_init_round nthr i k offset barrier internal =
           Inr (internal[unat i := (internal ! unat i)
                  [unat k := slot_after j (unat k) (internal ! unat i ! unat k),
                   r + unat k := slot_after j (r + unat k) (internal ! unat i ! (r + unat k))]])"
proof -
  from assms(1,2) have mine: "flags_of barrier i 0 = Inr (Internal (unat i) 0)"
      "flags_of barrier i 1 = Inr (Internal (unat i) r)"
    by (simp_all add: laid_out_def flags_of_def)
  from assms(1,3,4) have partner:
      "flags_of barrier (dissemination_partner nthr i offset) 0 = Inr (Internal j 0)"
      "flags_of barrier (dissemination_partner nthr i offset) 1 = Inr (Internal j r)"
    by (simp_all add: laid_out_def flags_of_def)
  from assms(6,7) have inb: "unat k < length (internal ! unat i)"
      "r + unat k < length (internal ! unat i)" "unat k \<noteq> r + unat k"
    by simp_all
  show ?thesis
    using assms(5) inb
    by (simp add: dissemination_init_round_def Let_def mine partner ebind_simps
        update_internal_def tflag_addr_def slot_after_def list_update_swap [of "unat k" "r + unat k"])
qed


text \<open>
  What the inner loop has computed from round \<open>lo\<close> on for thread \<open>i\<close>, and the outer
  loop for the threads from \<open>lo\<close> on.
\<close>

definition drow_after ::
  "nat \<Rightarrow> nat \<Rightarrow> nat \<Rightarrow> nat \<Rightarrow> ck_barrier_dissemination_internal list
   \<Rightarrow> ck_barrier_dissemination_internal list" where
  "drow_after n r i lo row =
     map (\<lambda>x. if x < r \<and> lo \<le> x then slot_after (partner_of n i x) x (row ! x)
              else if r \<le> x \<and> x < 2 * r \<and> lo \<le> x - r
                then slot_after (partner_of n i (x - r)) x (row ! x)
              else row ! x) [0..<length row]"

definition dtable_after ::
  "nat \<Rightarrow> nat \<Rightarrow> nat \<Rightarrow> ck_barrier_dissemination_internal list list
   \<Rightarrow> ck_barrier_dissemination_internal list list" where
  "dtable_after n r lo internal =
     map (\<lambda>i. if lo \<le> i \<and> i < n then drow_after n r i 0 (internal ! i) else internal ! i)
       [0..<length internal]"

lemma length_drow_after [simp]: "length (drow_after n r i lo row) = length row"
  by (simp add: drow_after_def)

lemma drow_after_done: "r \<le> lo \<Longrightarrow> drow_after n r i lo row = row"
  by (rule nth_equalityI) (auto simp: drow_after_def)

lemma drow_after_step:
  assumes "k < r" and "2 * r \<le> length row"
  shows "drow_after n r i (Suc k)
           (row[k := slot_after (partner_of n i k) k (row ! k),
                r + k := slot_after (partner_of n i k) (r + k) (row ! (r + k))]) =
         drow_after n r i k row"
proof (rule nth_equalityI)
  show "length (drow_after n r i (Suc k)
           (row[k := slot_after (partner_of n i k) k (row ! k),
                r + k := slot_after (partner_of n i k) (r + k) (row ! (r + k))])) =
        length (drow_after n r i k row)" by simp
next
  fix x
  assume "x < length (drow_after n r i (Suc k)
           (row[k := slot_after (partner_of n i k) k (row ! k),
                r + k := slot_after (partner_of n i k) (r + k) (row ! (r + k))]))"
  then have x: "x < length row" by simp
  consider "x = k" | "x = r + k" | "x \<noteq> k" "x \<noteq> r + k" by blast
  then show "drow_after n r i (Suc k)
           (row[k := slot_after (partner_of n i k) k (row ! k),
                r + k := slot_after (partner_of n i k) (r + k) (row ! (r + k))]) ! x =
        drow_after n r i k row ! x"
  proof cases
    case 1
    with x assms show ?thesis by (simp add: drow_after_def)
  next
    case 2
    with x assms show ?thesis by (simp add: drow_after_def)
  next
    case 3
    with x assms show ?thesis by (auto simp: drow_after_def)
  qed
qed

lemma dissemination_init_rounds_result:
  assumes "laid_out (unat nthr) (unat size_n) barrier"
    and "1 \<le> unat nthr" and "unat nthr \<le> 2 ^ 31" and "unat i < unat nthr"
    and "unat i < length internal" and "2 * unat size_n \<le> length (internal ! unat i)"
    and "\<forall>x < unat size_n. 2 ^ x < unat nthr" and "offset = 2 ^ unat k"
  shows "dissemination_init_rounds nthr size_n i k offset barrier internal =
           Inr (internal[unat i :=
                  drow_after (unat nthr) (unat size_n) (unat i) (unat k) (internal ! unat i)])"
  using assms
proof (induction nthr size_n i k offset barrier internal rule: dissemination_init_rounds.induct)
  case (1 nthr size_n i k offset barrier internal)
  let ?n = "unat nthr" and ?r = "unat size_n" and ?row = "internal ! unat i"
  show ?case
  proof (cases "k < size_n")
    case False
    then have "?r \<le> unat k" by (simp add: word_less_nat_alt)
    then have "drow_after ?n ?r (unat i) (unat k) ?row = ?row" by (rule drow_after_done)
    with False show ?thesis
      by (subst dissemination_init_rounds.simps) simp
  next
    case True
    then have lt: "unat k < ?r" by (simp add: word_less_nat_alt)
    have suc: "unat (k + 1) = Suc (unat k)" using True by (rule word_succ)
    from lt "1.prems"(7) have pow: "2 ^ unat k < ?n" by simp
    let ?j = "partner_of ?n (unat i) (unat k)"
    have j: "unat (dissemination_partner nthr i offset) = ?j"
      unfolding \<open>offset = 2 ^ unat k\<close>
      using "1.prems"(2,3,4) pow by (rule dissemination_partner_unat)
    from "1.prems"(2) have jn: "?j < ?n" by (simp add: partner_of_def)
    let ?internal = "internal[unat i := ?row
                  [unat k := slot_after ?j (unat k) (?row ! unat k),
                   ?r + unat k := slot_after ?j (?r + unat k) (?row ! (?r + unat k))]]"
    have round: "dissemination_init_round nthr i k offset barrier internal = Inr ?internal"
      using "1.prems"(1,4) j jn "1.prems"(5,6) lt by (rule dissemination_init_round_result)
    have "dissemination_init_rounds nthr size_n i (k + 1) (push_bit 1 offset) barrier ?internal =
        Inr (?internal[unat i :=
               drow_after ?n ?r (unat i) (unat (k + 1)) (?internal ! unat i)])"
      using "1.prems"
      by (intro "1.IH" [OF True round]) (simp_all add: suc push_bit_eq_mult)
    also have "?internal[unat i := drow_after ?n ?r (unat i) (unat (k + 1)) (?internal ! unat i)] =
        internal[unat i := drow_after ?n ?r (unat i) (unat k) ?row]"
      unfolding suc using "1.prems"(5,6) lt by (simp add: drow_after_step)
    finally show ?thesis
      using True round by (subst dissemination_init_rounds.simps) simp
  qed
qed

lemma dtable_after_done: "n \<le> lo \<Longrightarrow> dtable_after n r lo internal = internal"
  by (rule nth_equalityI) (auto simp: dtable_after_def)

lemma dtable_after_step:
  assumes "i < length internal" and "i < n"
  shows "dtable_after n r (Suc i) (internal[i := drow_after n r i 0 (internal ! i)]) =
         dtable_after n r i internal"
proof (rule nth_equalityI)
  show "length (dtable_after n r (Suc i) (internal[i := drow_after n r i 0 (internal ! i)])) =
        length (dtable_after n r i internal)" by (simp add: dtable_after_def)
next
  fix x
  assume "x < length (dtable_after n r (Suc i) (internal[i := drow_after n r i 0 (internal ! i)]))"
  then have x: "x < length internal" by (simp add: dtable_after_def)
  show "dtable_after n r (Suc i) (internal[i := drow_after n r i 0 (internal ! i)]) ! x =
        dtable_after n r i internal ! x"
  proof (cases "x = i")
    case True
    with x assms show ?thesis by (simp add: dtable_after_def)
  next
    case False
    with x show ?thesis by (auto simp: dtable_after_def)
  qed
qed

lemma dissemination_init_partners_result:
  assumes "laid_out (unat nthr) (unat size_n) barrier"
    and "1 \<le> unat nthr" and "unat nthr \<le> 2 ^ 31"
    and "unat nthr \<le> length internal"
    and "\<forall>x. unat i \<le> x \<and> x < unat nthr \<longrightarrow> 2 * unat size_n \<le> length (internal ! x)"
    and "\<forall>x < unat size_n. 2 ^ x < unat nthr"
  shows "dissemination_init_partners nthr size_n i barrier internal =
           Inr (dtable_after (unat nthr) (unat size_n) (unat i) internal)"
  using assms
proof (induction nthr size_n i barrier internal rule: dissemination_init_partners.induct)
  case (1 nthr size_n i barrier internal)
  let ?n = "unat nthr" and ?r = "unat size_n"
  show ?case
  proof (cases "i < nthr")
    case False
    then have "?n \<le> unat i" by (simp add: word_less_nat_alt)
    then have "dtable_after ?n ?r (unat i) internal = internal" by (rule dtable_after_done)
    with False show ?thesis
      by (subst dissemination_init_partners.simps) simp
  next
    case True
    then have lt: "unat i < ?n" by (simp add: word_less_nat_alt)
    have suc: "unat (i + 1) = Suc (unat i)" using True by (rule word_succ)
    from lt "1.prems"(4,5) have row: "unat i < length internal"
        "2 * ?r \<le> length (internal ! unat i)"
      by simp_all
    let ?internal = "internal[unat i := drow_after ?n ?r (unat i) 0 (internal ! unat i)]"
    have "dissemination_init_rounds nthr size_n i 0 1 barrier internal =
        Inr (internal[unat i := drow_after ?n ?r (unat i) (unat (0::u32)) (internal ! unat i)])"
      using "1.prems"(1,2,3) lt row "1.prems"(6)
      by (rule dissemination_init_rounds_result) simp
    then have inner: "dissemination_init_rounds nthr size_n i 0 1 barrier internal = Inr ?internal"
      by simp
    have "dissemination_init_partners nthr size_n (i + 1) barrier ?internal =
        Inr (dtable_after ?n ?r (unat (i + 1)) ?internal)"
      using "1.prems" by (intro "1.IH" [OF True inner]) (simp_all add: suc nth_list_update)
    also have "dtable_after ?n ?r (unat (i + 1)) ?internal = dtable_after ?n ?r (unat i) internal"
      unfolding suc using row(1) lt by (rule dtable_after_step)
    finally show ?thesis
      using True inner by (subst dissemination_init_partners.simps) simp
  qed
qed


text \<open>
  The caller's side of the contract: \<open>nthr\<close> barrier entries, each with its two flag
  pointers; \<open>barrier_internal[i]\<close> pointing to the start of an array of its own, with at
  least \<open>ck_barrier_dissemination_size(nthr)\<close> slots.
\<close>

definition dissemination_allocated :: "dissemination_memory \<Rightarrow> internal_ptr list \<Rightarrow> u32 \<Rightarrow> bool" where
  "dissemination_allocated mem barrier_internal nthr \<longleftrightarrow>
     unat nthr \<le> length (dm_barrier mem) \<and>
     (\<forall>i < unat nthr. length (flags (dm_barrier mem ! i)) = 2) \<and>
     unat nthr \<le> length barrier_internal \<and>
     (\<forall>i < unat nthr. barrier_internal ! i = Internal i 0) \<and>
     unat nthr \<le> length (dm_internal mem) \<and>
     (\<forall>i < unat nthr. unat (ck_barrier_dissemination_size nthr) \<le> length (dm_internal mem ! i))"

lemma unat_dissemination_size:
  "unat (ck_barrier_dissemination_size nthr) = 2 * unat (nthr_log nthr)"
proof -
  have "unat (nthr_log nthr) * unat (2::u32) < 2 ^ LENGTH(32)"
    using nthr_log_le [of nthr] by simp
  then have "unat (nthr_log nthr * 2) = unat (nthr_log nthr) * unat (2::u32)"
    by (rule unat_mult_lem [THEN iffD1])
  then show ?thesis
    by (simp add: ck_barrier_dissemination_size_def nthr_log_def)
qed

lemma dtable_after_slot:
  assumes "i < n" and "i < length internal" and "2 * r \<le> length (internal ! i)"
    and "k < r" and "p < 2"
  shows "dtable_after n r 0 internal ! i ! (p * r + k) =
           slot_after (partner_of n i k) (p * r + k) (internal ! i ! (p * r + k))"
proof -
  from assms(5) consider "p = 0" | "p = 1" by linarith
  then show ?thesis
    using assms(1,2,3,4) by cases (simp_all add: dtable_after_def drow_after_def)
qed

text \<open>
  Claim C5. After \<open>ck_barrier_dissemination_init(barrier, barrier_internal, N)\<close> with
  \<open>1 \<le> N \<le> 2^31\<close>, where \<open>R\<close> is the number of rounds the source computes: \<open>R\<close> is the
  rounded-up binary logarithm of \<open>N\<close> (\<open>k < R\<close> exactly when \<open>2^k < N\<close>); and for every
  thread \<open>i < N\<close>, parity \<open>p\<close> and round \<open>k < R\<close>, \<open>barrier[i].flags[p]\<close> points to slot
  \<open>p * R\<close> of the thread's array, the \<open>pflag\<close> of \<open>barrier[i].flags[p][k]\<close> is the address
  of the \<open>tflag\<close> of \<open>barrier[j].flags[p][k]\<close> for the partner \<open>j = (i + 2^k) mod N\<close>, and
  its \<open>tflag\<close> is 0.
\<close>

theorem dissemination_init_topology:
  assumes "1 \<le> unat nthr" and "unat nthr \<le> 2 ^ 31"
    and "dissemination_allocated mem barrier_internal nthr"
  shows "\<exists>mem'. ck_barrier_dissemination_init mem barrier_internal nthr = Inr mem' \<and>
    (\<forall>k. k < unat (nthr_log nthr) \<longleftrightarrow> 2 ^ k < unat nthr) \<and>
    (\<forall>i p k. i < unat nthr \<and> p < 2 \<and> k < unat (nthr_log nthr) \<longrightarrow>
       flags (dm_barrier mem' ! i) ! p = Internal i (p * unat (nthr_log nthr)) \<and>
       pflag (dm_internal mem' ! i ! (p * unat (nthr_log nthr) + k)) =
         Tflag ((i + 2 ^ k) mod unat nthr) (p * unat (nthr_log nthr) + k) \<and>
       tflag (dm_internal mem' ! i ! (p * unat (nthr_log nthr) + k)) = 0)"
proof -
  let ?n = "unat nthr" and ?r = "unat (nthr_log nthr)"
  let ?barrier = "flags_after (nthr_log nthr) barrier_internal 0 ?n (dm_barrier mem)"
  let ?internal = "dtable_after ?n ?r 0 (dm_internal mem)"
  note rounds_iff = nthr_log_rounds(1) [OF assms(1,2)]
  from assms(3) have alloc: "?n \<le> length (dm_barrier mem)"
      "\<And>i. i < ?n \<Longrightarrow> length (flags (dm_barrier mem ! i)) = 2"
      "?n \<le> length barrier_internal" "\<And>i. i < ?n \<Longrightarrow> barrier_internal ! i = Internal i 0"
      "?n \<le> length (dm_internal mem)" "\<And>i. i < ?n \<Longrightarrow> 2 * ?r \<le> length (dm_internal mem ! i)"
    by (simp_all add: dissemination_allocated_def unat_dissemination_size)
  have flags: "flags (?barrier ! i) = [Internal i 0, Internal i ?r]" if "i < ?n" for i
  proof -
    from alloc(2) [OF that] obtain a b where "flags (dm_barrier mem ! i) = [a, b]"
      by (auto simp: length_Suc_conv numeral_eq_Suc)
    with that alloc(1) alloc(4) [OF that] show ?thesis
      by (simp add: flags_after_def ptr_add_def)
  qed
  then have laid: "laid_out ?n ?r ?barrier"
    using alloc(1) by (simp add: laid_out_def flags_after_def)
  have first: "dissemination_init_flags nthr (nthr_log nthr) 0 barrier_internal (dm_barrier mem) =
      Inr ?barrier"
    using dissemination_init_flags_result [OF alloc(1,3), of "nthr_log nthr" 0] by simp
  have second: "dissemination_init_partners nthr (nthr_log nthr) 0 ?barrier (dm_internal mem) =
      Inr ?internal"
    using dissemination_init_partners_result [OF laid assms(1,2) alloc(5), of 0] alloc(6) rounds_iff
    by simp
  let ?mem = "mem\<lparr>ck_barrier_dissemination_nthr := nthr, dm_barrier := ?barrier,
    dm_internal := ?internal\<rparr>"
  have init: "ck_barrier_dissemination_init mem barrier_internal nthr = Inr ?mem"
    by (simp add: ck_barrier_dissemination_init_def Let_def nthr_log_def [symmetric] first second
        ebind_simps)
  have slots: "flags (dm_barrier ?mem ! i) ! p = Internal i (p * ?r) \<and>
       pflag (dm_internal ?mem ! i ! (p * ?r + k)) = Tflag ((i + 2 ^ k) mod ?n) (p * ?r + k) \<and>
       tflag (dm_internal ?mem ! i ! (p * ?r + k)) = 0"
    if "i < ?n" "p < 2" "k < ?r" for i p k
  proof -
    from that(1) alloc(5) have i: "i < length (dm_internal mem)" by simp
    note slot = dtable_after_slot [OF that(1) i alloc(6) [OF that(1)] that(3,2)]
    from that(2) consider "p = 0" | "p = 1" by linarith
    then have "flags (?barrier ! i) ! p = Internal i (p * ?r)"
      by cases (simp_all add: flags [OF that(1)])
    with slot show ?thesis
      by (simp add: slot_after_def partner_of_def)
  qed
  show ?thesis
  proof (intro exI conjI)
    show "ck_barrier_dissemination_init mem barrier_internal nthr = Inr ?mem" by (rule init)
    show "\<forall>k. k < ?r \<longleftrightarrow> 2 ^ k < ?n" using rounds_iff by simp
    show "\<forall>i p k. i < ?n \<and> p < 2 \<and> k < ?r \<longrightarrow>
       flags (dm_barrier ?mem ! i) ! p = Internal i (p * ?r) \<and>
       pflag (dm_internal ?mem ! i ! (p * ?r + k)) = Tflag ((i + 2 ^ k) mod ?n) (p * ?r + k) \<and>
       tflag (dm_internal ?mem ! i ! (p * ?r + k)) = 0"
    proof (intro allI impI)
      fix i p k :: nat
      assume "i < ?n \<and> p < 2 \<and> k < ?r"
      then have "i < ?n" "p < 2" "k < ?r" by simp_all
      then show "flags (dm_barrier ?mem ! i) ! p = Internal i (p * ?r) \<and>
       pflag (dm_internal ?mem ! i ! (p * ?r + k)) = Tflag ((i + 2 ^ k) mod ?n) (p * ?r + k) \<and>
       tflag (dm_internal ?mem ! i ! (p * ?r + k)) = 0"
        by (rule slots)
    qed
  qed
qed

text \<open>
  Four threads, two rounds: the partners of thread 0 are thread 1 and thread 2, and
  the round-1 partner of thread 3 is thread 1.
\<close>

lemma four_threads: "nthr_log 4 = 2" "ck_barrier_dissemination_size 4 = 4"
  by (simp_all add: nthr_log_def) code_simp+

theorem dissemination_init_topology_witness:
  "1 \<le> unat (4::u32) \<and> unat (4::u32) \<le> 2 ^ 31 \<and>
   dissemination_allocated (blank_memory 4 4) [Internal 0 0, Internal 1 0, Internal 2 0, Internal 3 0] 4 \<and>
   (\<exists>mem'. ck_barrier_dissemination_init (blank_memory 4 4)
              [Internal 0 0, Internal 1 0, Internal 2 0, Internal 3 0] 4 = Inr mem' \<and>
      flags (dm_barrier mem' ! 0) ! 1 = Internal 0 2 \<and>
      pflag (dm_internal mem' ! 0 ! 0) = Tflag 1 0 \<and>
      pflag (dm_internal mem' ! 0 ! 1) = Tflag 2 1 \<and>
      pflag (dm_internal mem' ! 3 ! 3) = Tflag 1 3 \<and>
      tflag (dm_internal mem' ! 3 ! 3) = 0)"
proof -
  have h1: "1 \<le> unat (4::u32)" and h2: "unat (4::u32) \<le> 2 ^ 31" by simp_all
  have lookup: "[Internal 0 0, Internal 1 0, Internal 2 0, Internal 3 0] ! i = Internal i 0"
    if "i < 4" for i
  proof -
    from that consider "i = 0" | "i = 1" | "i = 2" | "i = 3" by linarith
    then show ?thesis by cases simp_all
  qed
  have h3: "dissemination_allocated (blank_memory 4 4)
      [Internal 0 0, Internal 1 0, Internal 2 0, Internal 3 0] 4"
    using lookup by (simp add: dissemination_allocated_def blank_memory_def four_threads)
  from dissemination_init_topology [OF h1 h2 h3]
  obtain mem' where init: "ck_barrier_dissemination_init (blank_memory 4 4)
              [Internal 0 0, Internal 1 0, Internal 2 0, Internal 3 0] 4 = Inr mem'"
    and slots: "\<And>i p k. i < unat (4::u32) \<and> p < 2 \<and> k < unat (nthr_log 4) \<Longrightarrow>
       flags (dm_barrier mem' ! i) ! p = Internal i (p * unat (nthr_log 4)) \<and>
       pflag (dm_internal mem' ! i ! (p * unat (nthr_log 4) + k)) =
         Tflag ((i + 2 ^ k) mod unat (4::u32)) (p * unat (nthr_log 4) + k) \<and>
       tflag (dm_internal mem' ! i ! (p * unat (nthr_log 4) + k)) = 0"
    by blast
  from slots [of 0 1 0] have "flags (dm_barrier mem' ! 0) ! 1 = Internal 0 2"
    by (simp add: four_threads)
  moreover from slots [of 0 0 0] have "pflag (dm_internal mem' ! 0 ! 0) = Tflag 1 0"
    by (simp add: four_threads)
  moreover from slots [of 0 0 1] have "pflag (dm_internal mem' ! 0 ! 1) = Tflag 2 1"
    by (simp add: four_threads)
  moreover from slots [of 3 1 1]
  have "pflag (dm_internal mem' ! 3 ! 3) = Tflag 1 3" "tflag (dm_internal mem' ! 3 ! 3) = 0"
    by (simp_all add: four_threads)
  ultimately show ?thesis using h1 h2 h3 init by blast
qed


section \<open>The wait operations of the MCS and the combining barrier\<close>

text \<open>
  Modelled from the spec: the state types of \<open>ck_barrier.h\<close>, an expected sense and,
  for the MCS barrier, the virtual thread id.
  \<open>ck_barrier_mcs\<close>: the thread spins until none of its children is marked not ready,
  re-arms its \<open>childnotready\<close> slots, clears its slot at the parent, spins on its
  \<open>parentsense\<close> unless it is the root, and releases its two release-tree children.
\<close>

record ck_barrier_mcs_state =
  ms_sense :: u32
  ms_vpid :: u32

definition ck_barrier_mcs_state_init :: "u32 \<Rightarrow> ck_barrier_mcs_state \<times> u32" where
  "ck_barrier_mcs_state_init ck_barrier_mcs_tid =
     (\<lparr>ms_sense = NOT 0, ms_vpid = ck_barrier_mcs_tid\<rparr>, ck_barrier_mcs_tid + 1)"

function ck_barrier_mcs_check_children :: "u32 list \<Rightarrow> nat \<Rightarrow> bool" where
  "ck_barrier_mcs_check_children cnr i =
     (if i < 4 then (if cnr ! i \<noteq> 0 then False else ck_barrier_mcs_check_children cnr (i + 1))
      else True)"
  by pat_completeness auto
termination
  by (relation "measure (\<lambda>(cnr, i). 4 - i)") auto

declare ck_barrier_mcs_check_children.simps [simp del]

function ck_barrier_mcs_reinitialize_children :: "ck_barrier_mcs \<Rightarrow> nat \<Rightarrow> ck_barrier_mcs" where
  "ck_barrier_mcs_reinitialize_children node i =
     (if i < 4 then
        ck_barrier_mcs_reinitialize_children
          (node\<lparr>childnotready := (childnotready node)[i := havechild node ! i]\<rparr>) (i + 1)
      else node)"
  by pat_completeness auto
termination
  by (relation "measure (\<lambda>(node, i). 4 - i)") auto

declare ck_barrier_mcs_reinitialize_children.simps [simp del]

text \<open>Reading node \<open>barrier[i]\<close> and storing through a pointer into the node array.\<close>

definition mcs_node :: "ck_barrier_mcs list \<Rightarrow> u32 \<Rightarrow> error + ck_barrier_mcs" where
  "mcs_node barrier i = (if unat i < length barrier then Inr (barrier ! unat i) else Inl OutOfBounds)"

definition mcs_store :: "ck_barrier_mcs list \<Rightarrow> mcs_ptr \<Rightarrow> u32 \<Rightarrow> error + ck_barrier_mcs list" where
  "mcs_store barrier p v =
     (case p of
        Dummy i \<Rightarrow>
          if i < length barrier then Inr (barrier[i := (barrier ! i)\<lparr>dummy := v\<rparr>])
          else Inl OutOfBounds
      | ChildNotReady i j \<Rightarrow>
          if i < length barrier \<and> j < 4
          then Inr (barrier[i := (barrier ! i)\<lparr>childnotready := (childnotready (barrier ! i))[j := v]\<rparr>])
          else Inl OutOfBounds
      | ParentSense i \<Rightarrow>
          if i < length barrier then Inr (barrier[i := (barrier ! i)\<lparr>parentsense := v\<rparr>])
          else Inl OutOfBounds)"

definition ck_barrier_mcs ::
  "ck_barrier_mcs list env \<Rightarrow> ck_barrier_mcs list \<Rightarrow> ck_barrier_mcs_state
   \<Rightarrow> error + (ck_barrier_mcs list \<times> ck_barrier_mcs_state \<times> ck_barrier_mcs list env)" where
  "ck_barrier_mcs environment barrier state =
     ebind (spin (\<lambda>b. ebind (mcs_node b (ms_vpid state)) (\<lambda>node.
                    Inr (ck_barrier_mcs_check_children (childnotready node) 0 = False)))
              environment barrier) (\<lambda>(barrier, environment).
     ebind (mcs_node barrier (ms_vpid state)) (\<lambda>node.
     let barrier = barrier[unat (ms_vpid state) := ck_barrier_mcs_reinitialize_children node 0] in
     ebind (mcs_node barrier (ms_vpid state)) (\<lambda>node.
     ebind (mcs_store barrier (parent node) 0) (\<lambda>barrier.
     ebind (if ms_vpid state \<noteq> 0
            then spin (\<lambda>b. ebind (mcs_node b (ms_vpid state)) (\<lambda>node.
                         Inr (parentsense node \<noteq> ms_sense state))) environment barrier
            else Inr (barrier, environment)) (\<lambda>(barrier, environment).
     ebind (mcs_node barrier (ms_vpid state)) (\<lambda>node.
     ebind (mcs_store barrier (children node ! 0) (ms_sense state)) (\<lambda>barrier.
     ebind (mcs_node barrier (ms_vpid state)) (\<lambda>node.
     ebind (mcs_store barrier (children node ! 1) (ms_sense state)) (\<lambda>barrier.
       Inr (barrier, state\<lparr>ms_sense := NOT (ms_sense state)\<rparr>, environment))))))))))"

text \<open>
  \<open>ck_barrier_combining_aux\<close> climbs the parent pointers recursively; on a heap whose
  parent pointers form a cycle it need not end, so not returning is \<open>None\<close>.
\<close>

record ck_barrier_combining_state =
  cbs_sense :: u32

partial_function (option) ck_barrier_combining_aux ::
  "group_heap env \<Rightarrow> group_heap \<Rightarrow> nat option \<Rightarrow> u32 \<Rightarrow> (error + (group_heap \<times> group_heap env)) option" where
  "ck_barrier_combining_aux environment heap tnode sense =
     (case deref heap tnode of
        Inl e \<Rightarrow> Some (Inl e)
      | Inr t \<Rightarrow>
          (case modify heap tnode (\<lambda>g. g\<lparr>g_count := g_count g + 1\<rparr>) of
             Inl e \<Rightarrow> Some (Inl e)
           | Inr heap \<Rightarrow>
               if g_count t = g_k t - 1 then
                 Option.bind
                   (if g_parent t \<noteq> None
                    then ck_barrier_combining_aux environment heap (g_parent t) sense
                    else Some (Inr (heap, environment)))
                   (\<lambda>above. case above of
                      Inl e \<Rightarrow> Some (Inl e)
                    | Inr (heap, environment) \<Rightarrow>
                        Some (ebind (modify heap tnode (\<lambda>g. g\<lparr>g_count := 0\<rparr>)) (\<lambda>heap.
                              ebind (modify heap tnode (\<lambda>g. g\<lparr>g_sense := NOT (g_sense g)\<rparr>)) (\<lambda>heap.
                                Inr (heap, environment)))))
               else
                 Some (spin (\<lambda>h. ebind (deref h tnode) (\<lambda>g. Inr (sense \<noteq> g_sense g)))
                         environment heap)))"

definition ck_barrier_combining ::
  "group_heap env \<Rightarrow> group_heap \<Rightarrow> nat option \<Rightarrow> ck_barrier_combining_state
   \<Rightarrow> (error + (group_heap \<times> ck_barrier_combining_state \<times> group_heap env)) option" where
  "ck_barrier_combining environment heap tnode state =
     (case ck_barrier_combining_aux environment heap tnode (cbs_sense state) of
        None \<Rightarrow> None
      | Some (Inl e) \<Rightarrow> Some (Inl e)
      | Some (Inr (heap, environment)) \<Rightarrow>
          Some (Inr (heap, state\<lparr>cbs_sense := NOT (cbs_sense state)\<rparr>, environment)))"

section \<open>One participant in the other four barriers\<close>

text \<open>
  Set up for one participant, the centralized, dissemination, MCS and combining
  barriers let the single thread through on the last-arrival path: the wait returns
  whatever the environment is, and hands the environment back untouched, so no
  \<open>ck_pr_stall\<close> was executed.
\<close>

lemma centralized_single_thread:
  "ck_barrier_centralized environment \<lparr>cb_value = 0, cb_sense = 0\<rparr> \<lparr>cs_sense = 0\<rparr> 1 =
     Inr (\<lparr>cb_value = 0, cb_sense = NOT 0\<rparr>, \<lparr>cs_sense = NOT 0\<rparr>, environment)"
  by (simp add: ck_barrier_centralized_def Let_def)

lemma dissemination_single_thread:
  "ck_barrier_dissemination_init (blank_memory 1 0) [Internal 0 0] 1 = Inr single_memory"
  "ck_barrier_dissemination environment single_memory (fst (ck_barrier_dissemination_state_init 0)) =
     Inr (single_memory, \<lparr>ds_parity = 1, ds_sense = NOT 0, ds_tid = 0\<rparr>, environment)"
   apply (simp add: ck_barrier_dissemination_init_def blank_memory_def single_memory_def nthr_log_one
      dissemination_init_flags.simps [of _ _ 0] dissemination_init_flags.simps [of _ _ 1]
      dissemination_init_partners.simps [of _ _ 0] dissemination_init_partners.simps [of _ _ 1]
      dissemination_init_rounds.simps [of _ 0] ebind_simps ptr_add_def)
  apply (simp add: dissemination_single ck_barrier_dissemination_state_init_def)
  done

lemma mcs_single_thread:
  "ck_barrier_mcs_init [mcs_blank] 1 =
     Inr [\<lparr>children = [Dummy 0, Dummy 0], childnotready = [0, 0, 0, 0], dummy = 0,
           havechild = [0, 0, 0, 0], parent = Dummy 0, parentsense = 0\<rparr>]"
  "ck_barrier_mcs environment
     [\<lparr>children = [Dummy 0, Dummy 0], childnotready = [0, 0, 0, 0], dummy = 0,
           havechild = [0, 0, 0, 0], parent = Dummy 0, parentsense = 0\<rparr>]
     (fst (ck_barrier_mcs_state_init 0)) =
     Inr ([\<lparr>children = [Dummy 0, Dummy 0], childnotready = [0, 0, 0, 0], dummy = NOT 0,
           havechild = [0, 0, 0, 0], parent = Dummy 0, parentsense = 0\<rparr>],
          \<lparr>ms_sense = 0, ms_vpid = 0\<rparr>, environment)"
proof -
  have ok: "mcs_node_ok mcs_blank" by (simp add: mcs_blank_def mcs_node_ok_def)
  show "ck_barrier_mcs_init [mcs_blank] 1 =
     Inr [\<lparr>children = [Dummy 0, Dummy 0], childnotready = [0, 0, 0, 0], dummy = 0,
           havechild = [0, 0, 0, 0], parent = Dummy 0, parentsense = 0\<rparr>]"
    by (simp add: ck_barrier_mcs_init_def mcs_init_loop.simps [of _ 0] mcs_init_loop.simps [of _ 1]
        mcs_init_node_def Let_def mcs_init_slots_result [OF ok] mcs_flag_def)
      (simp add: mcs_blank_def)
  have check: "ck_barrier_mcs_check_children [0, 0, 0, 0] 0"
    by code_simp
  have reinit: "ck_barrier_mcs_reinitialize_children
      \<lparr>children = [Dummy 0, Dummy 0], childnotready = [0, 0, 0, 0], dummy = 0,
           havechild = [0, 0, 0, 0], parent = Dummy 0, parentsense = 0\<rparr> 0 =
      \<lparr>children = [Dummy 0, Dummy 0], childnotready = [0, 0, 0, 0], dummy = 0,
           havechild = [0, 0, 0, 0], parent = Dummy 0, parentsense = 0\<rparr>"
    by code_simp
  show "ck_barrier_mcs environment
     [\<lparr>children = [Dummy 0, Dummy 0], childnotready = [0, 0, 0, 0], dummy = 0,
           havechild = [0, 0, 0, 0], parent = Dummy 0, parentsense = 0\<rparr>]
     (fst (ck_barrier_mcs_state_init 0)) =
     Inr ([\<lparr>children = [Dummy 0, Dummy 0], childnotready = [0, 0, 0, 0], dummy = NOT 0,
           havechild = [0, 0, 0, 0], parent = Dummy 0, parentsense = 0\<rparr>],
          \<lparr>ms_sense = 0, ms_vpid = 0\<rparr>, environment)"
    by (cases environment)
      (simp_all add: ck_barrier_mcs_def ck_barrier_mcs_state_init_def mcs_node_def ebind_simps
        check reinit mcs_store_def)
qed

definition single_group ::
  "ck_barrier_combining \<Rightarrow> group_heap \<Rightarrow> (error + (ck_barrier_combining \<times> group_heap)) option" where
  "single_group root heap =
     then_group_init (Some (ck_barrier_combining_init root (Some 0) heap)) 1 1"

lemma combining_single_thread:
  "single_group root [0 \<mapsto> a, 1 \<mapsto> b] =
     Some (Inr (root\<lparr>c_root := Some 0, c_mutex := False\<rparr>,
       [0 \<mapsto> a\<lparr>g_k := 1, g_count := 0, g_sense := 0, g_parent := None,
                g_lchild := Some 1, g_rchild := None, g_next := None\<rparr>,
        1 \<mapsto> b\<lparr>g_k := 1, g_count := 0, g_sense := 0, g_parent := Some 0,
                g_lchild := None, g_rchild := None\<rparr>]))"
  "ck_barrier_combining environment
       [0 \<mapsto> a\<lparr>g_k := 1, g_count := 0, g_sense := 0, g_parent := None,
                g_lchild := Some 1, g_rchild := None, g_next := None\<rparr>,
        1 \<mapsto> b\<lparr>g_k := 1, g_count := 0, g_sense := 0, g_parent := Some 0,
                g_lchild := None, g_rchild := None\<rparr>] (Some 1) \<lparr>cbs_sense = NOT 0\<rparr> =
     Some (Inr ([0 \<mapsto> a\<lparr>g_k := 1, g_count := 0, g_sense := NOT 0, g_parent := None,
                g_lchild := Some 1, g_rchild := None, g_next := None\<rparr>,
        1 \<mapsto> b\<lparr>g_k := 1, g_count := 0, g_sense := NOT 0, g_parent := Some 0,
                g_lchild := None, g_rchild := None\<rparr>], \<lparr>cbs_sense = 0\<rparr>, environment))"
   apply (simp add: single_group_def combining_defs)
   apply (rule ext, simp)
  apply (simp add: ck_barrier_combining_def ck_barrier_combining_aux.simps deref_def modify_def
      ebind_simps)
  apply (rule ext, simp)
  done

end
